theory Spec2Isabelle
  imports Complex_Main "HOL-Library.AList" "HOL-Library.Sublist"
begin

section \<open>Numbers\<close>

text \<open>
  The simulator computes with JavaScript numbers.  They are modelled as real numbers
  (rounding is not modelled) together with the one non-number the program can produce
  from finite inputs: \<open>NaN\<close>, the result of \<open>0 / 0\<close> and of arithmetic on \<open>undefined\<close>.
  Values stored inside an agent (vector components, confidence, trust, traits) are
  plain reals; values the program derives from them (distances, drift, alignment)
  are \<open>jsnum\<close>s.
\<close>

datatype jsnum = Num real | NaN

fun js_add :: "jsnum \<Rightarrow> jsnum \<Rightarrow> jsnum" where
  "js_add (Num a) (Num b) = Num (a + b)"
| "js_add _ _ = NaN"

text \<open>\<open>x / n\<close> for a count \<open>n\<close>; \<open>0 / 0\<close> is \<open>NaN\<close>.  A nonzero numerator is never
  divided by zero in this program: the only count that can be zero is the size of the
  vocabulary, and the sum over an empty vocabulary is \<open>0\<close>.\<close>

fun js_div_count :: "jsnum \<Rightarrow> nat \<Rightarrow> jsnum" where
  "js_div_count (Num a) n = (if n = 0 then NaN else Num (a / real n))"
| "js_div_count NaN n = NaN"

text \<open>Every comparison with \<open>NaN\<close> is false.\<close>

fun js_less :: "jsnum \<Rightarrow> real \<Rightarrow> bool" where
  "js_less (Num a) b = (a < b)"
| "js_less NaN b = False"

text \<open>\<open>Math.max(0, x)\<close>: \<open>NaN\<close> if \<open>x\<close> is.\<close>

fun js_max0 :: "jsnum \<Rightarrow> jsnum" where
  "js_max0 (Num a) = Num (max 0 a)"
| "js_max0 NaN = NaN"

section \<open>Vector distance\<close>

text \<open>
  \<^verbatim>\<open>
  const calculateVectorDistance = (vec1, vec2) => {
    const dotProduct = vec1.reduce((sum, val, i) => sum + val * vec2[i], 0);
    const mag1 = Math.sqrt(vec1.reduce((sum, val) => sum + val * val, 0));
    const mag2 = Math.sqrt(vec2.reduce((sum, val) => sum + val * val, 0));
    return 1 - (dotProduct / (mag1 * mag2));
  };
  \<close>
  The reduction runs over the indices of \<open>vec1\<close>; where \<open>vec2\<close> is shorter,
  \<open>vec2[i]\<close> is \<open>undefined\<close> and the sum is \<open>NaN\<close>.  When \<open>mag1 * mag2\<close> is zero one
  of the vectors is all zeros, so a numeric \<open>dotProduct\<close> is zero too (lemma
  \<open>dotProduct_zero\<close> below) and the quotient is \<open>0 / 0\<close>.
\<close>

definition dotProduct :: "real list \<Rightarrow> real list \<Rightarrow> jsnum" where
  "dotProduct vec1 vec2 =
     (if length vec1 \<le> length vec2 then Num (\<Sum>(a, b) \<leftarrow> zip vec1 vec2. a * b) else NaN)"

definition magnitude :: "real list \<Rightarrow> real" where
  "magnitude vec = sqrt (\<Sum>val \<leftarrow> vec. val * val)"

definition calculateVectorDistance :: "real list \<Rightarrow> real list \<Rightarrow> jsnum" where
  "calculateVectorDistance vec1 vec2 =
     (case dotProduct vec1 vec2 of
        NaN \<Rightarrow> NaN
      | Num d \<Rightarrow>
          if magnitude vec1 * magnitude vec2 = 0 then NaN
          else Num (1 - d / (magnitude vec1 * magnitude vec2)))"

section \<open>Data model\<close>

text \<open>
  The component keeps its state in React state cells: \<open>step\<close>, \<open>agents\<close>, \<open>symbols\<close>,
  \<open>communications\<close>, \<open>driftHistory\<close>, \<open>alignmentHistory\<close>, \<open>syntaxPatterns\<close> and
  \<open>contextShifts\<close>.  JavaScript objects used as dictionaries (\<open>symbolMappings\<close>,
  \<open>trustScores\<close>) and the \<open>Map\<close> of syntax patterns are association lists in insertion
  order; assigning to an existing key keeps its position, a new key goes last, which is
  what \<open>AList.update\<close> does.  The fields \<open>associations\<close> and \<open>beliefState\<close> are created
  empty and never read or written again; they are left out.
\<close>

record mapping =
  vector :: "real list"
  confidence :: real
  usageCount :: nat
  lastUsed :: nat
  successRate :: real

datatype action = sent | received

record memoryEntry =
  m_step :: nat
  m_action :: action
  m_sequence :: "string list"
  m_success :: bool
  m_partner :: nat

record agent =
  agent_id :: nat
  name :: string
  symbolMappings :: "(string \<times> mapping) list"
  trustScores :: "(nat \<times> real) list"
  memory :: "memoryEntry list"
  adaptability :: real
  convergenceSpeed :: real
  forgettingRate :: real

record communication =
  c_id :: int
  c_sender :: nat
  c_receiver :: nat
  c_sequence :: "string list"
  c_success :: bool
  c_step :: nat
  c_distance :: jsnum
  c_trustBefore :: "real option"
  c_sequenceLength :: nat

datatype shiftType = symbol_redefinition | new_agent | task_change

record contextShift =
  s_step :: nat
  s_type :: "shiftType option"
  s_id :: int

record driftSample =
  d_step :: nat
  drift :: jsnum

record alignmentSample =
  a_step :: nat
  alignment :: jsnum

record sim =
  step :: nat
  agents :: "agent list"
  symbols :: "string list"
  communications :: "communication list"
  driftHistory :: "driftSample list"
  alignmentHistory :: "alignmentSample list"
  syntaxPatterns :: "(string \<times> nat) list"
  contextShifts :: "contextShift list"

text \<open>
  What the code leaves to the platform is a parameter of the model: the results of the
  successive calls of \<open>Math.random()\<close> and of \<open>Date.now()\<close>, each a sequence with a
  position that every call advances.
\<close>

type_synonym random = "nat \<Rightarrow> real"
type_synonym clock = "nat \<Rightarrow> int"

text \<open>
  A step that cannot be followed inside this model ends in a fault.  \<open>TypeError\<close> is
  the JavaScript exception of reading a property of \<open>undefined\<close>.  \<open>IllTyped\<close> marks
  the places where the source would not stop but store \<open>undefined\<close> or \<open>NaN\<close> in an
  agent, for which the records above have no value.
\<close>

datatype fault = TypeError | IllTyped

text \<open>\<open>xs[i]\<close> for an integral index: \<open>undefined\<close> (here \<open>None\<close>) out of range.\<close>

definition elementAt :: "'a list \<Rightarrow> int \<Rightarrow> 'a option" where
  "elementAt xs i = (if 0 \<le> i \<and> i < int (length xs) then Some (xs ! nat i) else None)"

text \<open>\<open>Math.floor(Math.random() * n)\<close>, for the call at position \<open>p\<close>.\<close>

definition randomIndex :: "random \<Rightarrow> nat \<Rightarrow> nat \<Rightarrow> int" where
  "randomIndex rnd p n = \<lfloor>rnd p * real n\<rfloor>"

text \<open>\<open>Array.from({length: 3}, () => Math.random() * 2 - 1)\<close>.\<close>

definition randomVector :: "random \<Rightarrow> nat \<Rightarrow> real list" where
  "randomVector rnd p = map (\<lambda>i. rnd (p + i) * 2 - 1) [0..<3]"

text \<open>\<open>vec.map(v => v + (Math.random() - 0.5) * k)\<close>: one call per component.\<close>

definition perturb :: "random \<Rightarrow> nat \<Rightarrow> real \<Rightarrow> real list \<Rightarrow> real list" where
  "perturb rnd p k vec = map (\<lambda>i. vec ! i + (rnd (p + i) - 0.5) * k) [0..<length vec]"

text \<open>\<open>[...prev.slice(-n), x]\<close>: the last \<open>n\<close> entries, then the new one.\<close>

definition appendBounded :: "nat \<Rightarrow> 'a list \<Rightarrow> 'a \<Rightarrow> 'a list" where
  "appendBounded n prev x = drop (length prev - n) prev @ [x]"

section \<open>Initialisation\<close>

text \<open>
  \<open>initAgents\<close> builds four agents.  For agent \<open>i\<close>: a trust of 0.5 toward each
  \<open>j \<noteq> i\<close> below 4; for each symbol a mapping with three random components, a random
  confidence, usage 0; then the three traits.
\<close>

definition initMapping :: "random \<Rightarrow> nat \<Rightarrow> mapping" where
  "initMapping rnd p =
     \<lparr>vector = randomVector rnd p, confidence = 0.3 + rnd (p + 3) * 0.4,
      usageCount = 0, lastUsed = 0, successRate = 0.5\<rparr>"

fun initMappings ::
  "random \<Rightarrow> string list \<Rightarrow> (string \<times> mapping) list \<Rightarrow> nat \<Rightarrow> (string \<times> mapping) list \<times> nat"
where
  "initMappings rnd [] al p = (al, p)"
| "initMappings rnd (symbol # rest) al p =
     initMappings rnd rest (AList.update symbol (initMapping rnd p) al) (p + 4)"

definition initAgent :: "random \<Rightarrow> string list \<Rightarrow> nat \<Rightarrow> nat \<Rightarrow> agent \<times> nat" where
  "initAgent rnd syms i p =
     (let (ms, p') = initMappings rnd syms [] p
      in (\<lparr>agent_id = i,
            name = ''Agent-'' @ [char_of (65 + i)],
            symbolMappings = ms,
            trustScores = map (\<lambda>j. (j, 0.5)) (filter (\<lambda>j. i \<noteq> j) [0..<4]),
            memory = [],
            adaptability = 0.2 + rnd p' * 0.6,
            convergenceSpeed = 0.1 + rnd (p' + 1) * 0.3,
            forgettingRate = 0.001 + rnd (p' + 2) * 0.004\<rparr>,
          p' + 3))"

fun initAgentsFrom :: "random \<Rightarrow> string list \<Rightarrow> nat list \<Rightarrow> nat \<Rightarrow> agent list \<times> nat" where
  "initAgentsFrom rnd syms [] p = ([], p)"
| "initAgentsFrom rnd syms (i # is) p =
     (let (a, p') = initAgent rnd syms i p;
          (as, p'') = initAgentsFrom rnd syms is p'
      in (a # as, p''))"

definition initAgents :: "random \<Rightarrow> string list \<Rightarrow> nat \<Rightarrow> agent list \<times> nat" where
  "initAgents rnd syms p = initAgentsFrom rnd syms [0..<4] p"

text \<open>The state after mounting: the initial values of the state cells, with the
  agents of \<open>initAgents\<close>.\<close>

definition initial :: "random \<Rightarrow> string list \<Rightarrow> nat \<Rightarrow> sim \<times> nat" where
  "initial rnd syms p =
     (let (as, p') = initAgents rnd syms p
      in (\<lparr>step = 0, agents = as, symbols = syms, communications = [],
            driftHistory = [], alignmentHistory = [], syntaxPatterns = [],
            contextShifts = []\<rparr>, p'))"

section \<open>Forgetting\<close>

text \<open>
  \<^verbatim>\<open>
  newAgents.forEach(agent => {
    Object.keys(agent.symbolMappings).forEach(symbol => {
      const mapping = agent.symbolMappings[symbol];
      if (step - mapping.lastUsed > 20) {
        mapping.confidence *= (1 - agent.forgettingRate);
        mapping.vector = mapping.vector.map(v => v + (Math.random() - 0.5) * 0.01);
      }
    });
  });
  \<close>
\<close>

definition forgetMapping :: "random \<Rightarrow> nat \<Rightarrow> real \<Rightarrow> mapping \<Rightarrow> nat \<Rightarrow> mapping \<times> nat" where
  "forgetMapping rnd st rate m p =
     (if int st - int (lastUsed m) > 20
      then (m\<lparr>confidence := confidence m * (1 - rate),
               vector := perturb rnd p 0.01 (vector m)\<rparr>, p + length (vector m))
      else (m, p))"

fun forgetMappings ::
  "random \<Rightarrow> nat \<Rightarrow> real \<Rightarrow> (string \<times> mapping) list \<Rightarrow> nat \<Rightarrow> (string \<times> mapping) list \<times> nat"
where
  "forgetMappings rnd st rate [] p = ([], p)"
| "forgetMappings rnd st rate ((symbol, m) # rest) p =
     (let (m', p') = forgetMapping rnd st rate m p;
          (rest', p'') = forgetMappings rnd st rate rest p'
      in ((symbol, m') # rest', p''))"

fun forgetAgents :: "random \<Rightarrow> nat \<Rightarrow> agent list \<Rightarrow> nat \<Rightarrow> agent list \<times> nat" where
  "forgetAgents rnd st [] p = ([], p)"
| "forgetAgents rnd st (a # as) p =
     (let (ms, p') = forgetMappings rnd st (forgettingRate a) (symbolMappings a) p;
          (as', p'') = forgetAgents rnd st as p'
      in (a\<lparr>symbolMappings := ms\<rparr> # as', p''))"

section \<open>Communication round\<close>

text \<open>
  \<^verbatim>\<open>
  const sequenceLength = Math.random() < 0.8 ? 1 : 2;
  const sequence = [];
  for (let i = 0; i < sequenceLength; i++) {
    sequence.push(symbols[Math.floor(Math.random() * symbols.length)]);
  }
  \<close>
  An element is \<open>undefined\<close> (\<open>None\<close>) when the vocabulary is empty.
\<close>

definition pickSequence :: "random \<Rightarrow> string list \<Rightarrow> nat \<Rightarrow> string option list \<times> nat" where
  "pickSequence rnd syms p =
     (let sequenceLength = (if rnd p < 0.8 then 1 else 2 :: nat)
      in (map (\<lambda>i. elementAt syms (randomIndex rnd (p + 1 + i) (length syms)))
            [0..<sequenceLength],
          p + 1 + sequenceLength))"

text \<open>
  \<^verbatim>\<open>
  let totalDistance = 0;
  sequence.forEach(symbol => {
    const senderVector = newAgents[sender].symbolMappings[symbol].vector;
    const receiverVector = newAgents[receiver].symbolMappings[symbol].vector;
    totalDistance += calculateVectorDistance(senderVector, receiverVector);
  });
  \<close>
  A symbol without a mapping raises the \<open>TypeError\<close>.
\<close>

fun totalDistance :: "agent \<Rightarrow> agent \<Rightarrow> string list \<Rightarrow> jsnum \<Rightarrow> fault + jsnum" where
  "totalDistance S R [] acc = Inr acc"
| "totalDistance S R (symbol # rest) acc =
     (case map_of (symbolMappings S) symbol of
        None \<Rightarrow> Inl TypeError
      | Some sm \<Rightarrow>
          (case map_of (symbolMappings R) symbol of
             None \<Rightarrow> Inl TypeError
           | Some rm \<Rightarrow>
               totalDistance S R rest
                 (js_add acc (calculateVectorDistance (vector sm) (vector rm)))))"

text \<open>
  The success branch moves the receiver's vector in place:
  \<^verbatim>\<open>
  for (let i = 0; i < receiverMapping.vector.length; i++) {
    const diff = senderMapping.vector[i] - receiverMapping.vector[i];
    receiverMapping.vector[i] += diff * pullStrength * newAgents[receiver].convergenceSpeed;
  }
  \<close>
  with \<open>pullStrength = 0.1\<close>.  \<open>pull\<close> is used only where the sender's vector is at
  least as long as the receiver's.
\<close>

definition pull :: "real \<Rightarrow> real list \<Rightarrow> real list \<Rightarrow> real list" where
  "pull speed sv rv = map (\<lambda>i. rv ! i + (sv ! i - rv ! i) * 0.1 * speed) [0..<length rv]"

text \<open>
  The body of the second \<open>sequence.forEach\<close>, for one symbol: usage bookkeeping for
  both mappings, then reinforcement on success and repair on failure.
  \<^verbatim>\<open>
  senderMapping.lastUsed = step;
  receiverMapping.lastUsed = step;
  senderMapping.usageCount++;
  receiverMapping.usageCount++;
  if (success) {
    senderMapping.confidence = Math.min(1, senderMapping.confidence + 0.05);
    receiverMapping.confidence = Math.min(1, receiverMapping.confidence + 0.05);
    newAgents[receiver].trustScores[sender] = Math.min(1,
      newAgents[receiver].trustScores[sender] + 0.02);
    (the loop above)
  } else {
    const trustWeight = newAgents[receiver].trustScores[sender];
    const adaptationProbability = newAgents[receiver].adaptability * trustWeight;
    if (Math.random() < adaptationProbability) {
      receiverMapping.vector = senderMapping.vector.map(v => v + (Math.random() - 0.5) * 0.2);
      receiverMapping.confidence = 0.3;
    } else {
      receiverMapping.vector = receiverMapping.vector.map(v => v + (Math.random() - 0.5) * 0.1);
    }
  }
  \<close>
  \<open>S\<close> and \<open>R\<close> are the sender \<open>newAgents[sender]\<close> and the receiver
  \<open>newAgents[receiver]\<close>, two different objects since \<open>sender !== receiver\<close>.  On
  success a missing trust entry, or a sender's vector shorter than the receiver's,
  would put \<open>NaN\<close> into the receiver.  On failure a missing trust entry makes
  \<open>adaptationProbability\<close> \<open>NaN\<close>, and \<open>Math.random() < NaN\<close> is false.
\<close>

definition adaptSymbol ::
  "random \<Rightarrow> nat \<Rightarrow> bool \<Rightarrow> nat \<Rightarrow> string \<Rightarrow> agent \<times> agent \<times> nat \<Rightarrow> fault + (agent \<times> agent \<times> nat)"
where
  "adaptSymbol rnd st success sender symbol = (\<lambda>(S, R, p).
     case map_of (symbolMappings S) symbol of
       None \<Rightarrow> Inl TypeError
     | Some sm0 \<Rightarrow>
     (case map_of (symbolMappings R) symbol of
       None \<Rightarrow> Inl TypeError
     | Some rm0 \<Rightarrow>
         let senderMapping = sm0\<lparr>lastUsed := st, usageCount := usageCount sm0 + 1\<rparr>;
             receiverMapping = rm0\<lparr>lastUsed := st, usageCount := usageCount rm0 + 1\<rparr>
         in
         if success then
           (case map_of (trustScores R) sender of
              None \<Rightarrow> Inl IllTyped
            | Some trust \<Rightarrow>
                if length (vector senderMapping) < length (vector receiverMapping)
                then Inl IllTyped
                else
                  Inr (S\<lparr>symbolMappings := AList.update symbol
                           (senderMapping\<lparr>confidence := min 1 (confidence senderMapping + 0.05)\<rparr>)
                           (symbolMappings S)\<rparr>,
                       R\<lparr>symbolMappings := AList.update symbol
                           (receiverMapping
                              \<lparr>confidence := min 1 (confidence receiverMapping + 0.05),
                               vector := pull (convergenceSpeed R) (vector senderMapping)
                                           (vector receiverMapping)\<rparr>)
                           (symbolMappings R),
                         trustScores := AList.update sender (min 1 (trust + 0.02))
                           (trustScores R)\<rparr>,
                       p))
         else
           let S' = S\<lparr>symbolMappings := AList.update symbol senderMapping (symbolMappings S)\<rparr>;
               adapting = (case map_of (trustScores R) sender of
                             None \<Rightarrow> False
                           | Some trustWeight \<Rightarrow> rnd p < adaptability R * trustWeight)
           in
           if adapting then
             Inr (S',
                  R\<lparr>symbolMappings := AList.update symbol
                      (receiverMapping
                         \<lparr>vector := perturb rnd (p + 1) 0.2 (vector senderMapping),
                          confidence := 0.3\<rparr>)
                      (symbolMappings R)\<rparr>,
                  p + 1 + length (vector senderMapping))
           else
             Inr (S',
                  R\<lparr>symbolMappings := AList.update symbol
                      (receiverMapping
                         \<lparr>vector := perturb rnd (p + 1) 0.1 (vector receiverMapping)\<rparr>)
                      (symbolMappings R)\<rparr>,
                  p + 1 + length (vector receiverMapping))))"

fun adaptSequence ::
  "random \<Rightarrow> nat \<Rightarrow> bool \<Rightarrow> nat \<Rightarrow> string list \<Rightarrow> agent \<times> agent \<times> nat \<Rightarrow> fault + (agent \<times> agent \<times> nat)"
where
  "adaptSequence rnd st success sender [] x = Inr x"
| "adaptSequence rnd st success sender (symbol # rest) x =
     (case adaptSymbol rnd st success sender symbol x of
        Inl e \<Rightarrow> Inl e
      | Inr x' \<Rightarrow> adaptSequence rnd st success sender rest x')"

text \<open>
  \<^verbatim>\<open>
  newAgents[sender].memory.push({step, action: 'sent', sequence, success, partner: receiver});
  if (newAgents[sender].memory.length > 50) newAgents[sender].memory.shift();
  \<close>
\<close>

definition remember :: "memoryEntry \<Rightarrow> agent \<Rightarrow> agent" where
  "remember e a =
     (let pushed = memory a @ [e]
      in a\<lparr>memory := (if length pushed > 50 then tl pushed else pushed)\<rparr>)"

text \<open>\<open>sequence.join('-')\<close>.\<close>

fun join :: "string \<Rightarrow> string list \<Rightarrow> string" where
  "join sep [] = []"
| "join sep [x] = x"
| "join sep (x # y # ys) = x @ sep @ join sep (y # ys)"

text \<open>\<open>newPatterns.set(pattern, (newPatterns.get(pattern) || 0) + 1)\<close>.\<close>

definition countPattern :: "string \<Rightarrow> (string \<times> nat) list \<Rightarrow> (string \<times> nat) list" where
  "countPattern pattern prev =
     AList.update pattern ((case map_of prev pattern of None \<Rightarrow> 0 | Some n \<Rightarrow> n) + 1) prev"

text \<open>
  The function passed to \<open>setAgents\<close> in \<open>simulateStep\<close>: forgetting, the choice of
  sender and receiver, and for two different agents the exchange.  Besides the new
  agents it yields what it hands to \<open>setCommunications\<close> and \<open>setSyntaxPatterns\<close>.

  The record for \<open>setCommunications\<close> is built inside the function passed to it,
  which React calls after the agents' update has run to its end; its \<open>trustBefore\<close>
  reads \<open>newAgents[receiver].trustScores[sender]\<close> at that moment, from the receiver
  as the exchange has left it.
\<close>

record exchange =
  x_agents :: "agent list"
  x_communication :: "communication option"
  x_pattern :: "string option"
  x_rpos :: nat
  x_cpos :: nat

text \<open>
  The body of \<open>if (sender !== receiver) { ... }\<close>: the sequence, the distances,
  \<^verbatim>\<open>
  const avgDistance = totalDistance / sequence.length;
  const success = avgDistance < 0.5;
  const timestamp = Date.now();
  \<close>
  the adaptation for every symbol, and the two memory entries.  An index outside the
  population, or an \<open>undefined\<close> symbol (which has no mapping), raises the \<open>TypeError\<close>
  at the first read of a vector.
\<close>

definition communicate ::
  "random \<Rightarrow> clock \<Rightarrow> nat \<Rightarrow> string list \<Rightarrow> agent list \<Rightarrow> int \<Rightarrow> int \<Rightarrow> nat \<Rightarrow> nat
     \<Rightarrow> fault + exchange"
where
  "communicate rnd clk st syms newAgents sender receiver p q =
     (let (picked, p2) = pickSequence rnd syms p in
      case elementAt newAgents sender of
        None \<Rightarrow> Inl TypeError
      | Some S \<Rightarrow>
      (case elementAt newAgents receiver of
        None \<Rightarrow> Inl TypeError
      | Some R \<Rightarrow>
      (case those picked of
        None \<Rightarrow> Inl TypeError
      | Some sequence \<Rightarrow>
      (case totalDistance S R sequence (Num 0) of
        Inl e \<Rightarrow> Inl e
      | Inr distances \<Rightarrow>
          let avgDistance = js_div_count distances (length sequence);
              success = js_less avgDistance 0.5;
              timestamp = clk q
          in
          (case adaptSequence rnd st success (nat sender) sequence (S, R, p2) of
             Inl e \<Rightarrow> Inl e
           | Inr (S', R', p3) \<Rightarrow>
               Inr \<lparr>x_agents =
                      (newAgents
                         [nat sender := remember
                            \<lparr>m_step = st, m_action = sent, m_sequence = sequence,
                             m_success = success, m_partner = nat receiver\<rparr> S'])
                         [nat receiver := remember
                            \<lparr>m_step = st, m_action = received, m_sequence = sequence,
                             m_success = success, m_partner = nat sender\<rparr> R'],
                    x_communication = Some
                      \<lparr>c_id = timestamp, c_sender = nat sender, c_receiver = nat receiver,
                       c_sequence = sequence, c_success = success, c_step = st,
                       c_distance = avgDistance,
                       c_trustBefore = map_of (trustScores R') (nat sender),
                       c_sequenceLength = length sequence\<rparr>,
                    x_pattern =
                      (if length sequence > 1 then Some (join ''-'' sequence) else None),
                    x_rpos = p3, x_cpos = q + 1\<rparr>)))))"

definition agentsUpdater ::
  "random \<Rightarrow> clock \<Rightarrow> nat \<Rightarrow> string list \<Rightarrow> agent list \<Rightarrow> nat \<Rightarrow> nat \<Rightarrow> fault + exchange"
where
  "agentsUpdater rnd clk st syms prevAgents p q =
     (let (newAgents, p1) = forgetAgents rnd st prevAgents p;
          sender = randomIndex rnd p1 (length newAgents);
          receiver = randomIndex rnd (p1 + 1) (length newAgents)
      in
      if sender \<noteq> receiver
      then communicate rnd clk st syms newAgents sender receiver (p1 + 2) q
      else Inr \<lparr>x_agents = newAgents, x_communication = None, x_pattern = None,
                x_rpos = p1 + 2, x_cpos = q\<rparr>)"

section \<open>Context shift\<close>

text \<open>
  \<open>triggerContextShift\<close> draws the kind of shift, and for a redefinition the target
  symbol, when it is called; the agents are rewritten by the function it passes to
  \<open>setAgents\<close>, which runs after the one of \<open>simulateStep\<close>.
  \<^verbatim>\<open>
  const shiftTypes = ['symbol_redefinition', 'new_agent', 'task_change'];
  const shiftType = shiftTypes[Math.floor(Math.random() * shiftTypes.length)];
  ...
  if (shiftType === 'symbol_redefinition') {
    const targetSymbol = symbols[Math.floor(Math.random() * symbols.length)];
  \<close>
\<close>

definition shiftTypes :: "shiftType list" where
  "shiftTypes = [symbol_redefinition, new_agent, task_change]"

definition chooseShift ::
  "random \<Rightarrow> string list \<Rightarrow> nat \<Rightarrow> shiftType option \<times> string option \<times> nat" where
  "chooseShift rnd syms p =
     (let shiftType = elementAt shiftTypes (randomIndex rnd p (length shiftTypes))
      in if shiftType = Some symbol_redefinition
         then (shiftType, elementAt syms (randomIndex rnd (p + 1) (length syms)), p + 2)
         else (shiftType, None, p + 1))"

text \<open>
  \<^verbatim>\<open>
  prevAgents.map(agent => ({
    ...agent,
    symbolMappings: {
      ...agent.symbolMappings,
      [targetSymbol]: {
        ...agent.symbolMappings[targetSymbol],
        vector: Array.from({length: 3}, () => Math.random() * 2 - 1),
        confidence: 0.3
      }
    }
  }))
  \<close>
  For an agent without a mapping for the target the source makes one that has a vector
  and a confidence only: \<open>IllTyped\<close>.
\<close>

fun redefineAgents :: "random \<Rightarrow> string \<Rightarrow> agent list \<Rightarrow> nat \<Rightarrow> fault + (agent list \<times> nat)" where
  "redefineAgents rnd targetSymbol [] p = Inr ([], p)"
| "redefineAgents rnd targetSymbol (a # as) p =
     (case map_of (symbolMappings a) targetSymbol of
        None \<Rightarrow> Inl IllTyped
      | Some m \<Rightarrow>
          (case redefineAgents rnd targetSymbol as (p + 3) of
             Inl e \<Rightarrow> Inl e
           | Inr (as', p') \<Rightarrow>
               Inr (a\<lparr>symbolMappings := AList.update targetSymbol
                        (m\<lparr>vector := randomVector rnd p, confidence := 0.3\<rparr>)
                        (symbolMappings a)\<rparr> # as', p')))"

section \<open>Drift metrics\<close>

text \<open>\<open>agents[i].symbolMappings[symbol]?.vector || [0,0,0]\<close>.\<close>

definition vectorOrZero :: "agent \<Rightarrow> string \<Rightarrow> real list" where
  "vectorOrZero a symbol =
     (case map_of (symbolMappings a) symbol of Some m \<Rightarrow> vector m | None \<Rightarrow> [0, 0, 0])"

definition pairDrift :: "string list \<Rightarrow> agent \<Rightarrow> agent \<Rightarrow> jsnum" where
  "pairDrift syms a b =
     js_div_count
       (fold (\<lambda>symbol acc.
                js_add acc (calculateVectorDistance (vectorOrZero a symbol) (vectorOrZero b symbol)))
          syms (Num 0))
       (length syms)"

text \<open>The pairs \<open>(i, j)\<close> with \<open>i < j\<close>, in the order of the two nested loops.\<close>

definition agentPairs :: "nat \<Rightarrow> (nat \<times> nat) list" where
  "agentPairs n = concat (map (\<lambda>i. map (\<lambda>j. (i, j)) [i + 1..<n]) [0..<n])"

text \<open>
  \<open>calculateDriftMetrics\<close> returns at once for an empty population (\<open>None\<close>);
  otherwise it yields the entries it appends to the two histories.
  \<^verbatim>\<open>
  const avgDrift = comparisons > 0 ? totalDrift / comparisons : 0;
  const alignment = Math.max(0, (1 - avgDrift) * 100);
  \<close>
\<close>

definition calculateDriftMetrics ::
  "nat \<Rightarrow> string list \<Rightarrow> agent list \<Rightarrow> (driftSample \<times> alignmentSample) option" where
  "calculateDriftMetrics st syms as =
     (if length as = 0 then None
      else
        let totalDrift = fold (\<lambda>(i, j) acc. js_add acc (pairDrift syms (as ! i) (as ! j)))
                           (agentPairs (length as)) (Num 0);
            comparisons = length (agentPairs (length as));
            avgDrift = (if comparisons > 0 then js_div_count totalDrift comparisons else Num 0);
            alignment = js_max0 (case avgDrift of Num d \<Rightarrow> Num ((1 - d) * 100) | NaN \<Rightarrow> NaN)
        in Some (\<lparr>d_step = st, drift = avgDrift\<rparr>, \<lparr>a_step = st, alignment = alignment\<rparr>))"

section \<open>One step and a run\<close>

text \<open>
  \<open>simulateStep\<close> reads \<open>step\<close>, \<open>agents\<close> and \<open>symbols\<close> as they are when the timer
  fires.  The calls it makes itself come first: the draws of \<open>triggerContextShift\<close>
  and \<open>calculateDriftMetrics\<close> on the agents as they were before the step.  The
  functions it has passed to the setters run afterwards, in the order of the state
  cells and of the calls: for the agents the update of the step and then the
  redefinition, for the other cells the appends.  \<open>Date.now()\<close> is called once in the
  agents' update of a step with an exchange, and once more in the function appending
  a context shift.  A fault in the agents' update is the fault of the step.
  \<open>shiftDue\<close> is the test \<open>step > 0 && step % 100 === 0\<close>.
\<close>

definition shiftDue :: "nat \<Rightarrow> bool" where
  "shiftDue st \<longleftrightarrow> st > 0 \<and> st mod 100 = 0"

definition simulateStep ::
  "random \<Rightarrow> clock \<Rightarrow> sim \<Rightarrow> nat \<Rightarrow> nat \<Rightarrow> fault + (sim \<times> nat \<times> nat)" where
  "simulateStep rnd clk s p q =
     (if length (agents s) = 0 then Inr (s, p, q)
      else
        let st = step s;
            shifting = shiftDue st;
            (shiftType, targetSymbol, p1) =
               (if shifting then chooseShift rnd (symbols s) p else (None, None, p));
            metrics = calculateDriftMetrics st (symbols s) (agents s)
        in
        case agentsUpdater rnd clk st (symbols s) (agents s) p1 q of
          Inl e \<Rightarrow> Inl e
        | Inr x \<Rightarrow>
            (case (if shifting \<and> shiftType = Some symbol_redefinition
                   then (case targetSymbol of
                           None \<Rightarrow> Inl IllTyped
                         | Some t \<Rightarrow> redefineAgents rnd t (x_agents x) (x_rpos x))
                   else Inr (x_agents x, x_rpos x)) of
               Inl e \<Rightarrow> Inl e
             | Inr (as, p2) \<Rightarrow>
                 Inr (s\<lparr>agents := as,
                        communications :=
                          (case x_communication x of
                             None \<Rightarrow> communications s
                           | Some c \<Rightarrow> appendBounded 29 (communications s) c),
                        syntaxPatterns :=
                          (case x_pattern x of
                             None \<Rightarrow> syntaxPatterns s
                           | Some pattern \<Rightarrow> countPattern pattern (syntaxPatterns s)),
                        contextShifts :=
                          (if shifting
                           then contextShifts s @
                                  [\<lparr>s_step = st, s_type = shiftType, s_id = clk (x_cpos x)\<rparr>]
                           else contextShifts s),
                        driftHistory :=
                          (case metrics of
                             None \<Rightarrow> driftHistory s
                           | Some (d, a) \<Rightarrow> appendBounded 99 (driftHistory s) d),
                        alignmentHistory :=
                          (case metrics of
                             None \<Rightarrow> alignmentHistory s
                           | Some (d, a) \<Rightarrow> appendBounded 99 (alignmentHistory s) a)\<rparr>,
                      p2, if shifting then x_cpos x + 1 else x_cpos x)))"

text \<open>
  The timer's callback, \<open>setStep(prev => prev + 1); simulateStep();\<close>.  The effect
  that installs the timer depends on \<open>step\<close> and \<open>agents\<close>, so every callback is made
  from the state of the latest render.
\<close>

definition tick :: "random \<Rightarrow> clock \<Rightarrow> sim \<times> nat \<times> nat \<Rightarrow> fault + (sim \<times> nat \<times> nat)" where
  "tick rnd clk = (\<lambda>(s, p, q).
     case simulateStep rnd clk s p q of
       Inl e \<Rightarrow> Inl e
     | Inr (s', p', q') \<Rightarrow> Inr (s'\<lparr>step := step s + 1\<rparr>, p', q'))"

fun run :: "random \<Rightarrow> clock \<Rightarrow> nat \<Rightarrow> sim \<times> nat \<times> nat \<Rightarrow> fault + (sim \<times> nat \<times> nat)" where
  "run rnd clk 0 w = Inr w"
| "run rnd clk (Suc n) w =
     (case tick rnd clk w of Inl e \<Rightarrow> Inl e | Inr w' \<Rightarrow> run rnd clk n w')"

section \<open>Notions of the specification\<close>




text \<open>
  The values \<open>Math.random()\<close> returns lie in \<open>[0, 1)\<close>.
\<close>

definition random_ok :: "random \<Rightarrow> bool" where
  "random_ok rnd \<longleftrightarrow> (\<forall>i. 0 \<le> rnd i \<and> rnd i < 1)"

text \<open>
  The shape and the ranges of the data model: every vector has three components and
  every confidence lies in \<open>[0, 1]\<close>; an agent has a mapping for every symbol of the
  vocabulary, a trust in \<open>[lo, 1]\<close> toward every other agent of the population (agents
  are referred to by their position), at most 50 memory entries, and traits in the
  ranges they are sampled from; the three bounded logs hold at most 30, 100 and 100
  entries.  The lower bound \<open>lo\<close> of the trust is a parameter.
\<close>

definition mapping_ok :: "mapping \<Rightarrow> bool" where
  "mapping_ok m \<longleftrightarrow> length (vector m) = 3 \<and> 0 \<le> confidence m \<and> confidence m \<le> 1"

definition agent_ok :: "real \<Rightarrow> string list \<Rightarrow> nat \<Rightarrow> nat \<Rightarrow> agent \<Rightarrow> bool" where
  "agent_ok lo syms n i a \<longleftrightarrow>
     distinct (map fst (symbolMappings a)) \<and>
     set syms \<subseteq> fst ` set (symbolMappings a) \<and>
     (\<forall>(symbol, m) \<in> set (symbolMappings a). mapping_ok m) \<and>
     distinct (map fst (trustScores a)) \<and>
     (\<forall>j < n. j \<noteq> i \<longrightarrow> j \<in> fst ` set (trustScores a)) \<and>
     (\<forall>(j, t) \<in> set (trustScores a). lo \<le> t \<and> t \<le> 1) \<and>
     length (memory a) \<le> 50 \<and>
     0.2 \<le> adaptability a \<and> adaptability a < 0.8 \<and>
     0.1 \<le> convergenceSpeed a \<and> convergenceSpeed a < 0.4 \<and>
     0.001 \<le> forgettingRate a \<and> forgettingRate a < 0.005"

definition agents_ok :: "real \<Rightarrow> string list \<Rightarrow> agent list \<Rightarrow> bool" where
  "agents_ok lo syms as \<longleftrightarrow> (\<forall>i < length as. agent_ok lo syms (length as) i (as ! i))"

definition sim_ok :: "real \<Rightarrow> sim \<Rightarrow> bool" where
  "sim_ok lo s \<longleftrightarrow>
     symbols s \<noteq> [] \<and> agents_ok lo (symbols s) (agents s) \<and>
     length (communications s) \<le> 30 \<and>
     length (driftHistory s) \<le> 100 \<and> length (alignmentHistory s) \<le> 100"

text \<open>
  A bounded log takes a new entry and gives up old ones: the new log is what is left of
  \<open>old\<close> with one entry added at the end after entries are dropped from the front
  only, and the added entry is still there.
\<close>

definition appended :: "'a list \<Rightarrow> 'a list \<Rightarrow> bool" where
  "appended old new \<longleftrightarrow> (\<exists>x. suffix new (old @ [x]) \<and> new \<noteq> [] \<and> last new = x)"



text \<open>
  Trust does not go down from agent state \<open>a\<close> to agent state \<open>a'\<close>: every peer that
  has a trust value in \<open>a\<close> has one in \<open>a'\<close> that is at least as large.
\<close>

definition trust_grows :: "agent \<Rightarrow> agent \<Rightarrow> bool" where
  "trust_grows a a' \<longleftrightarrow>
     (\<forall>j t. map_of (trustScores a) j = Some t \<longrightarrow>
        (\<exists>t'. map_of (trustScores a') j = Some t' \<and> t \<le> t'))"

text \<open>
  What a run leaves behind apart from the readings of the clock: the state with the
  \<open>id\<close> of every communication and of every context shift set to zero, and the
  position reached in the random source.
\<close>

definition unstamped_communication :: "communication \<Rightarrow> communication" where
  "unstamped_communication c = c\<lparr>c_id := 0\<rparr>"

definition unstamped_shift :: "contextShift \<Rightarrow> contextShift" where
  "unstamped_shift c = c\<lparr>s_id := 0\<rparr>"

definition unstamped :: "sim \<Rightarrow> sim" where
  "unstamped s =
     s\<lparr>communications := map unstamped_communication (communications s),
       contextShifts := map unstamped_shift (contextShifts s)\<rparr>"

definition unstamped_exchange ::
  "exchange \<Rightarrow> agent list \<times> communication option \<times> string option \<times> nat" where
  "unstamped_exchange x =
     (x_agents x, map_option unstamped_communication (x_communication x), x_pattern x, x_rpos x)"

definition unstamped_result :: "fault + (sim \<times> nat \<times> nat) \<Rightarrow> fault + (sim \<times> nat)" where
  "unstamped_result r = (case r of Inl e \<Rightarrow> Inl e | Inr (s, p, q) \<Rightarrow> Inr (unstamped s, p))"

text \<open>
  The state the setters of a step leave behind, given the outcome \<open>x\<close> of the agents'
  update, the kind \<open>k\<close> of shift drawn and the agents \<open>as\<close> after a redefinition: the
  last branch of \<open>simulateStep\<close>, named so that two steps can be compared.
\<close>

definition finishStep ::
  "clock \<Rightarrow> sim \<Rightarrow> shiftType option \<Rightarrow> exchange \<Rightarrow> agent list \<Rightarrow> sim" where
  "finishStep clk s k x as =
     s\<lparr>agents := as,
       communications :=
         (case x_communication x of
            None \<Rightarrow> communications s
          | Some c \<Rightarrow> appendBounded 29 (communications s) c),
       syntaxPatterns :=
         (case x_pattern x of
            None \<Rightarrow> syntaxPatterns s
          | Some pattern \<Rightarrow> countPattern pattern (syntaxPatterns s)),
       contextShifts :=
         (if shiftDue (step s)
          then contextShifts s @ [\<lparr>s_step = step s, s_type = k, s_id = clk (x_cpos x)\<rparr>]
          else contextShifts s),
       driftHistory :=
         (case calculateDriftMetrics (step s) (symbols s) (agents s) of
            None \<Rightarrow> driftHistory s
          | Some (d, a) \<Rightarrow> appendBounded 99 (driftHistory s) d),
       alignmentHistory :=
         (case calculateDriftMetrics (step s) (symbols s) (agents s) of
            None \<Rightarrow> alignmentHistory s
          | Some (d, a) \<Rightarrow> appendBounded 99 (alignmentHistory s) a)\<rparr>"

section \<open>Example states\<close>

text \<open>
  Two agents over the vocabulary \<open>[''a'']\<close>, each with a trust of one half toward the
  other, and a random source whose second value is one half and whose other values
  are zero: with two agents it makes agent 0 the sender and agent 1 the receiver of a
  one-symbol sequence.
\<close>

definition example_agent :: "nat \<Rightarrow> nat \<Rightarrow> real list \<Rightarrow> agent" where
  "example_agent i peer v =
     \<lparr>agent_id = i, name = ''Agent'',
      symbolMappings =
        [(''a'', \<lparr>vector = v, confidence = 1 / 2, usageCount = 0, lastUsed = 0,
                  successRate = 1 / 2\<rparr>)],
      trustScores = [(peer, 1 / 2)], memory = [],
      adaptability = 1 / 2, convergenceSpeed = 1 / 5, forgettingRate = 1 / 500\<rparr>"

definition example_random :: random where
  "example_random i = (if i = 1 then 1 / 2 else 0)"

definition example_sim :: "nat \<Rightarrow> real list \<Rightarrow> real list \<Rightarrow> sim" where
  "example_sim st v0 v1 =
     \<lparr>step = st, agents = [example_agent 0 1 v0, example_agent 1 0 v1], symbols = [''a''],
      communications = [], driftHistory = [], alignmentHistory = [], syntaxPatterns = [],
      contextShifts = []\<rparr>"

section \<open>Vector distance: properties\<close>

lemma sum_sq_nonneg: "0 \<le> (\<Sum>a \<leftarrow> xs. a * a :: real)"
  by (induction xs) auto






lemma sum_sq_zero_iff: "(\<Sum>a \<leftarrow> xs. a * a :: real) = 0 \<longleftrightarrow> (\<forall>x \<in> set xs. x = 0)"
proof (induction xs)
  case Nil
  then show ?case by simp
next
  case (Cons a xs)
  have "0 \<le> a * a" by simp
  then show ?case using Cons sum_sq_nonneg [of xs]
    by (auto simp: add_nonneg_eq_0_iff)
qed





lemma magnitude_eq_0: "magnitude u = 0 \<longleftrightarrow> (\<forall>x \<in> set u. x = 0)"
  by (simp add: magnitude_def sum_sq_zero_iff)




section \<open>The invariant is kept\<close>

subsection \<open>Forgetting\<close>

lemma length_perturb [simp]: "length (perturb rnd p k vec) = length vec"
  by (simp add: perturb_def)


lemma length_randomVector [simp]: "length (randomVector rnd p) = 3"
  by (simp add: randomVector_def)

lemma forgetMapping_ok:
  assumes "mapping_ok m" "0 \<le> rate" "rate \<le> 1"
  shows "mapping_ok (fst (forgetMapping rnd st rate m p))"
  using assms by (auto simp: forgetMapping_def mapping_ok_def mult_le_one intro: mult_nonneg_nonneg)

lemma forgetMappings_keys:
  "map fst (fst (forgetMappings rnd st rate al p)) = map fst al"
proof (induction al arbitrary: p)
  case Nil
  then show ?case by simp
next
  case (Cons x al)
  then show ?case by (cases x) (simp add: case_prod_unfold Let_def)
qed

lemma forgetMappings_keys_set:
  "fst ` set (fst (forgetMappings rnd st rate al p)) = fst ` set al"
  using forgetMappings_keys [of rnd st rate al p] by (metis set_map)

lemma forgetMappings_ok:
  assumes "0 \<le> rate" "rate \<le> 1"
  shows "(\<forall>(symbol, m) \<in> set al. mapping_ok m) \<Longrightarrow>
         (\<forall>(symbol, m) \<in> set (fst (forgetMappings rnd st rate al p)). mapping_ok m)"
proof (induction al arbitrary: p)
  case Nil
  then show ?case by simp
next
  case (Cons x al)
  obtain symbol m where x: "x = (symbol, m)" by (cases x)
  obtain m' p' where f: "forgetMapping rnd st rate m p = (m', p')" by (cases "forgetMapping rnd st rate m p")
  have "mapping_ok m'" using forgetMapping_ok [OF _ assms, of m rnd st p] Cons.prems f x by simp
  moreover have "\<forall>(symbol, m) \<in> set (fst (forgetMappings rnd st rate al p')). mapping_ok m"
    using Cons.IH Cons.prems by simp
  ultimately show ?case using x f by (simp add: case_prod_unfold Let_def)
qed

lemma length_forgetAgents [simp]: "length (fst (forgetAgents rnd st as p)) = length as"
  by (induction as arbitrary: p) (simp_all add: case_prod_unfold Let_def)

lemma forgetAgents_nth:
  "i < length as \<Longrightarrow>
   \<exists>p'. fst (forgetAgents rnd st as p) ! i =
     (as ! i)\<lparr>symbolMappings :=
        fst (forgetMappings rnd st (forgettingRate (as ! i)) (symbolMappings (as ! i)) p')\<rparr>"
proof (induction as arbitrary: p i)
  case Nil
  then show ?case by simp
next
  case (Cons a as)
  show ?case
  proof (cases i)
    case 0
    then show ?thesis by (auto simp: case_prod_unfold Let_def intro: exI [of _ p])
  next
    case (Suc k)
    obtain ms p1 where f: "forgetMappings rnd st (forgettingRate a) (symbolMappings a) p = (ms, p1)"
      by (cases "forgetMappings rnd st (forgettingRate a) (symbolMappings a) p")
    from Cons.prems Suc have "k < length as" by simp
    from Cons.IH [OF this, of p1] show ?thesis using Suc f by (simp add: case_prod_unfold Let_def)
  qed
qed

lemma agent_ok_forget:
  assumes "agent_ok lo syms n i a"
  shows "agent_ok lo syms n i
           (a\<lparr>symbolMappings := fst (forgetMappings rnd st (forgettingRate a) (symbolMappings a) p)\<rparr>)"
proof -
  have r: "0 \<le> forgettingRate a" "forgettingRate a \<le> 1" using assms by (simp_all add: agent_ok_def)
  have "\<forall>(symbol, m) \<in> set (symbolMappings a). mapping_ok m" using assms by (simp add: agent_ok_def)
  from forgetMappings_ok [OF r this]
  show ?thesis using assms
    by (simp add: agent_ok_def forgetMappings_keys forgetMappings_keys_set)
qed

lemma agents_ok_forget:
  assumes "agents_ok lo syms as"
  shows "agents_ok lo syms (fst (forgetAgents rnd st as p))"
  unfolding agents_ok_def
proof (intro allI impI)
  fix i assume "i < length (fst (forgetAgents rnd st as p))"
  then have i: "i < length as" by simp
  from forgetAgents_nth [OF i, of rnd st p] obtain p' where
    "fst (forgetAgents rnd st as p) ! i =
     (as ! i)\<lparr>symbolMappings :=
        fst (forgetMappings rnd st (forgettingRate (as ! i)) (symbolMappings (as ! i)) p')\<rparr>" ..
  then show "agent_ok lo syms (length (fst (forgetAgents rnd st as p))) i (fst (forgetAgents rnd st as p) ! i)"
    using assms i agent_ok_forget [of lo syms "length as" i "as ! i" rnd st p']
    by (simp add: agents_ok_def)
qed


subsection \<open>Exchange\<close>

lemma set_update_cases:
  "(k', v') \<in> set (AList.update k v al) \<Longrightarrow> (k', v') = (k, v) \<or> (k', v') \<in> set al"
  by (induction al) (auto split: if_splits)

lemma key_lookup:
  "k \<in> fst ` set al \<Longrightarrow> \<exists>v. map_of al k = Some v \<and> (k, v) \<in> set al"
  by (metis map_of_SomeD map_of_eq_None_iff not_Some_eq)

lemma length_pull [simp]: "length (pull speed sv rv) = length rv"
  by (simp add: pull_def)

lemma agent_ok_update_mapping:
  assumes "agent_ok lo syms n i a" "mapping_ok m"
  shows "agent_ok lo syms n i (a\<lparr>symbolMappings := AList.update k m (symbolMappings a)\<rparr>)"
  using assms
  by (auto simp: agent_ok_def distinct_update dom_update dest!: set_update_cases)

lemma agent_ok_update_trust:
  assumes "agent_ok lo syms n i a" "lo \<le> t" "t \<le> 1"
  shows "agent_ok lo syms n i (a\<lparr>trustScores := AList.update j t (trustScores a)\<rparr>)"
  using assms
  by (auto simp: agent_ok_def distinct_update dom_update dest!: set_update_cases)

lemma agent_ok_update_both:
  assumes "agent_ok lo syms n i a" "mapping_ok m" "lo \<le> t" "t \<le> 1"
  shows "agent_ok lo syms n i
           (a\<lparr>symbolMappings := AList.update k m (symbolMappings a),
              trustScores := AList.update j t (trustScores a)\<rparr>)"
  using agent_ok_update_trust [OF agent_ok_update_mapping [OF assms(1,2)] assms(3,4)]
  by simp

lemma agent_ok_mapping:
  "agent_ok lo syms n i a \<Longrightarrow> map_of (symbolMappings a) k = Some m \<Longrightarrow> mapping_ok m"
  by (auto simp: agent_ok_def dest!: map_of_SomeD)

lemma agent_ok_trust:
  "agent_ok lo syms n i a \<Longrightarrow> map_of (trustScores a) j = Some t \<Longrightarrow> lo \<le> t \<and> t \<le> 1"
  by (auto simp: agent_ok_def dest!: map_of_SomeD)

lemma agent_ok_has_mapping:
  "agent_ok lo syms n i a \<Longrightarrow> symbol \<in> set syms \<Longrightarrow> \<exists>m. map_of (symbolMappings a) symbol = Some m"
  using key_lookup [of symbol "symbolMappings a"] by (auto simp: agent_ok_def)

lemma agent_ok_has_trust:
  "agent_ok lo syms n i a \<Longrightarrow> j < n \<Longrightarrow> j \<noteq> i \<Longrightarrow> \<exists>t. map_of (trustScores a) j = Some t"
  using key_lookup [of j "trustScores a"] by (auto simp: agent_ok_def)

lemma adaptSymbol_ok:
  assumes S: "agent_ok lo syms n si S" and R: "agent_ok lo syms n ri R"
    and sym: "symbol \<in> set syms" and si: "si < n" "si \<noteq> ri" and lo: "lo \<le> 1"
  shows "\<exists>S' R' p'. adaptSymbol rnd st success si symbol (S, R, p) = Inr (S', R', p') \<and>
           agent_ok lo syms n si S' \<and> agent_ok lo syms n ri R'"
proof -
  from agent_ok_has_mapping [OF S sym] obtain sm where sm: "map_of (symbolMappings S) symbol = Some sm" ..
  from agent_ok_has_mapping [OF R sym] obtain rm where rm: "map_of (symbolMappings R) symbol = Some rm" ..
  from agent_ok_has_trust [OF R si] obtain t where t: "map_of (trustScores R) si = Some t" ..
  have smok: "mapping_ok sm" and rmok: "mapping_ok rm"
    using agent_ok_mapping [OF S sm] agent_ok_mapping [OF R rm] by simp_all
  have tr: "lo \<le> t" "t \<le> 1" using agent_ok_trust [OF R t] by simp_all
  show ?thesis
    using sm rm t smok rmok tr lo
    by (auto simp: adaptSymbol_def Let_def mapping_ok_def
        intro!: agent_ok_update_mapping [OF S] agent_ok_update_mapping [OF R]
                agent_ok_update_both [OF R])
qed


lemma adaptSequence_ok:
  assumes "agent_ok lo syms n si S" "agent_ok lo syms n ri R"
    and "set sequence \<subseteq> set syms" and si: "si < n" "si \<noteq> ri" and lo: "lo \<le> 1"
  shows "\<exists>S' R' p'. adaptSequence rnd st success si sequence (S, R, p) = Inr (S', R', p') \<and>
           agent_ok lo syms n si S' \<and> agent_ok lo syms n ri R'"
  using assms(1-3)
proof (induction sequence arbitrary: S R p)
  case Nil
  then show ?case by simp
next
  case (Cons symbol rest)
  from Cons.prems have sym: "symbol \<in> set syms" and rest: "set rest \<subseteq> set syms" by simp_all
  from adaptSymbol_ok [OF Cons.prems(1,2) sym si lo, of rnd st success p]
  obtain S1 R1 p1 where
    1: "adaptSymbol rnd st success si symbol (S, R, p) = Inr (S1, R1, p1)"
    and ok: "agent_ok lo syms n si S1" "agent_ok lo syms n ri R1" by blast
  from Cons.IH [OF ok rest, of p1] show ?case using 1 by simp
qed

lemma agent_ok_remember:
  "agent_ok lo syms n i a \<Longrightarrow> agent_ok lo syms n i (remember e a)"
  by (simp add: agent_ok_def remember_def Let_def)

lemma randomIndex_range:
  assumes "random_ok rnd" "0 < n"
  shows "0 \<le> randomIndex rnd p n \<and> randomIndex rnd p n < int n"
proof -
  from assms have r: "0 \<le> rnd p" "rnd p < 1" by (simp_all add: random_ok_def)
  with assms(2) have "0 \<le> rnd p * real n" "rnd p * real n < real n" by simp_all
  then show ?thesis unfolding randomIndex_def by (simp add: floor_less_iff)
qed

lemma elementAt_randomIndex:
  assumes "random_ok rnd" "xs \<noteq> []"
  shows "\<exists>x. elementAt xs (randomIndex rnd p (length xs)) = Some x \<and> x \<in> set xs \<and>
           x = xs ! nat (randomIndex rnd p (length xs)) \<and>
           nat (randomIndex rnd p (length xs)) < length xs"
  using randomIndex_range [OF assms(1), of "length xs" p] assms(2)
  by (auto simp: elementAt_def)

lemma pickSequence_ok:
  assumes "random_ok rnd" "syms \<noteq> []"
  shows "\<exists>sequence. those (fst (pickSequence rnd syms p)) = Some sequence \<and>
           set sequence \<subseteq> set syms \<and> (length sequence = 1 \<or> length sequence = 2)"
proof -
  obtain a where a: "elementAt syms (randomIndex rnd (Suc p) (length syms)) = Some a" "a \<in> set syms"
    using elementAt_randomIndex [OF assms, of "Suc p"] by blast
  obtain b where b: "elementAt syms (randomIndex rnd (Suc (Suc p)) (length syms)) = Some b" "b \<in> set syms"
    using elementAt_randomIndex [OF assms, of "Suc (Suc p)"] by blast
  have two: "[0..<2] = [0, Suc 0]" by (simp add: upt_rec)
  show ?thesis using a b by (simp add: pickSequence_def two)
qed

lemma totalDistance_ok:
  assumes "agent_ok lo syms n si S" "agent_ok lo syms n ri R"
  shows "set sequence \<subseteq> set syms \<Longrightarrow> \<exists>d. totalDistance S R sequence acc = Inr d"
proof (induction sequence arbitrary: acc)
  case Nil
  then show ?case by simp
next
  case (Cons symbol rest)
  then have sym: "symbol \<in> set syms" by simp
  from agent_ok_has_mapping [OF assms(1) sym] agent_ok_has_mapping [OF assms(2) sym] Cons
  show ?case by auto
qed

lemma agents_ok_update:
  assumes "agents_ok lo syms as" "i < length as" "agent_ok lo syms (length as) i a"
  shows "agents_ok lo syms (as[i := a])"
  using assms by (auto simp: agents_ok_def nth_list_update)

lemma communicate_ok:
  assumes nok: "agents_ok lo syms newAgents" and ne: "syms \<noteq> []"
    and rnd: "random_ok rnd" and lo: "lo \<le> 1"
    and sr: "0 \<le> sender" "sender < int (length newAgents)"
    and rr: "0 \<le> receiver" "receiver < int (length newAgents)"
    and diff: "sender \<noteq> receiver"
  shows "\<exists>x. communicate rnd clk st syms newAgents sender receiver p q = Inr x \<and>
           agents_ok lo syms (x_agents x) \<and> length (x_agents x) = length newAgents"
proof -
  define si where "si = nat sender"
  define ri where "ri = nat receiver"
  have si: "si < length newAgents" "si \<noteq> ri" and ri: "ri < length newAgents"
    using sr rr diff by (simp_all add: si_def ri_def)
  have eS: "elementAt newAgents sender = Some (newAgents ! si)"
    and eR: "elementAt newAgents receiver = Some (newAgents ! ri)"
    using sr rr by (simp_all add: elementAt_def si_def ri_def)
  have Sok: "agent_ok lo syms (length newAgents) si (newAgents ! si)"
    and Rok: "agent_ok lo syms (length newAgents) ri (newAgents ! ri)"
    using nok si ri by (simp_all add: agents_ok_def)
  obtain picked p2 where pk: "pickSequence rnd syms p = (picked, p2)"
    by (cases "pickSequence rnd syms p")
  from pickSequence_ok [OF rnd ne, of p] pk obtain sequence where
    seq: "those picked = Some sequence" "set sequence \<subseteq> set syms" by auto
  from totalDistance_ok [OF Sok Rok seq(2), of "Num 0"] obtain d where
    d: "totalDistance (newAgents ! si) (newAgents ! ri) sequence (Num 0) = Inr d" ..
  define success where "success = js_less (js_div_count d (length sequence)) 0.5"
  from adaptSequence_ok [OF Sok Rok seq(2) si lo, of rnd st success p2]
  obtain S' R' p3 where
    ad: "adaptSequence rnd st success si sequence (newAgents ! si, newAgents ! ri, p2)
           = Inr (S', R', p3)"
    and ok': "agent_ok lo syms (length newAgents) si S'" "agent_ok lo syms (length newAgents) ri R'"
    by blast
  have upd: "agents_ok lo syms ((newAgents[si := remember e1 S'])[ri := remember e2 R'])" for e1 e2
    using agents_ok_update [OF agents_ok_update [OF nok si(1) agent_ok_remember [OF ok'(1)]], of ri]
      ri agent_ok_remember [OF ok'(2)] by simp
  have "communicate rnd clk st syms newAgents sender receiver p q =
          Inr \<lparr>x_agents =
                 (newAgents
                    [si := remember
                       \<lparr>m_step = st, m_action = sent, m_sequence = sequence,
                        m_success = success, m_partner = ri\<rparr> S'])
                    [ri := remember
                       \<lparr>m_step = st, m_action = received, m_sequence = sequence,
                        m_success = success, m_partner = si\<rparr> R'],
               x_communication = Some
                 \<lparr>c_id = clk q, c_sender = si, c_receiver = ri,
                  c_sequence = sequence, c_success = success, c_step = st,
                  c_distance = js_div_count d (length sequence),
                  c_trustBefore = map_of (trustScores R') si,
                  c_sequenceLength = length sequence\<rparr>,
               x_pattern = (if length sequence > 1 then Some (join ''-'' sequence) else None),
               x_rpos = p3, x_cpos = q + 1\<rparr>"
    using ad eS eR d unfolding communicate_def pk
    by (simp add: seq(1) Let_def success_def si_def ri_def)
  then show ?thesis using upd by simp
qed

lemma agentsUpdater_ok:
  assumes ok: "agents_ok lo syms as" and ne: "as \<noteq> []" "syms \<noteq> []"
    and rnd: "random_ok rnd" and lo: "lo \<le> 1"
  shows "\<exists>x. agentsUpdater rnd clk st syms as p q = Inr x \<and>
           agents_ok lo syms (x_agents x) \<and> length (x_agents x) = length as"
proof -
  obtain newAgents p1 where fa: "forgetAgents rnd st as p = (newAgents, p1)"
    by (cases "forgetAgents rnd st as p")
  have len: "length newAgents = length as"
    using length_forgetAgents [of rnd st as p] fa by simp
  have nok: "agents_ok lo syms newAgents"
    using agents_ok_forget [OF ok, of rnd st p] fa by simp
  have pos: "0 < length newAgents" using ne len by simp
  note r1 = randomIndex_range [OF rnd pos, of p1] and r2 = randomIndex_range [OF rnd pos, of "p1 + 1"]
  show ?thesis
  proof (cases "randomIndex rnd p1 (length newAgents) = randomIndex rnd (p1 + 1) (length newAgents)")
    case True
    then show ?thesis using nok len
      unfolding agentsUpdater_def fa by (simp add: Let_def)
  next
    case False
    from communicate_ok [OF nok ne(2) rnd lo conjunct1 [OF r1] conjunct2 [OF r1]
        conjunct1 [OF r2] conjunct2 [OF r2] False, of clk st "p1 + 2" q]
    show ?thesis using False len
      unfolding agentsUpdater_def fa by (simp add: Let_def)
  qed
qed


subsection \<open>Context shift\<close>

lemma redefineAgents_result:
  "(\<forall>a \<in> set as. targetSymbol \<in> fst ` set (symbolMappings a)) \<Longrightarrow>
   \<exists>as'. redefineAgents rnd targetSymbol as p = Inr (as', p + 3 * length as) \<and>
     length as' = length as \<and>
     (\<forall>i < length as. \<exists>m. map_of (symbolMappings (as ! i)) targetSymbol = Some m \<and>
        as' ! i = (as ! i)\<lparr>symbolMappings := AList.update targetSymbol
                     (m\<lparr>vector := randomVector rnd (p + 3 * i), confidence := 0.3\<rparr>)
                     (symbolMappings (as ! i))\<rparr>)"
proof (induction as arbitrary: p)
  case Nil
  then show ?case by simp
next
  case (Cons a as)
  from Cons.prems key_lookup [of targetSymbol "symbolMappings a"]
  obtain m where m: "map_of (symbolMappings a) targetSymbol = Some m" by auto
  from Cons.IH [of "p + 3"] Cons.prems obtain as' where
    r: "redefineAgents rnd targetSymbol as (p + 3) = Inr (as', p + 3 + 3 * length as)"
    and l: "length as' = length as"
    and n: "\<forall>i < length as. \<exists>m. map_of (symbolMappings (as ! i)) targetSymbol = Some m \<and>
        as' ! i = (as ! i)\<lparr>symbolMappings := AList.update targetSymbol
                     (m\<lparr>vector := randomVector rnd (p + 3 + 3 * i), confidence := 0.3\<rparr>)
                     (symbolMappings (as ! i))\<rparr>"
    by auto
  let ?a' = "a\<lparr>symbolMappings := AList.update targetSymbol
                 (m\<lparr>vector := randomVector rnd p, confidence := 0.3\<rparr>) (symbolMappings a)\<rparr>"
  have "redefineAgents rnd targetSymbol (a # as) p = Inr (?a' # as', p + 3 * length (a # as))"
    using m r by (simp add: add.assoc)
  moreover have "\<exists>m. map_of (symbolMappings ((a # as) ! i)) targetSymbol = Some m \<and>
        (?a' # as') ! i = ((a # as) ! i)\<lparr>symbolMappings := AList.update targetSymbol
                     (m\<lparr>vector := randomVector rnd (p + 3 * i), confidence := 0.3\<rparr>)
                     (symbolMappings ((a # as) ! i))\<rparr>" if "i < length (a # as)" for i
  proof (cases i)
    case 0
    then show ?thesis using m by simp
  next
    case (Suc k)
    with that have "k < length as" by simp
    with n Suc show ?thesis by (simp add: add.assoc)
  qed
  ultimately show ?case using l by auto
qed

lemma agents_ok_redefine:
  assumes ok: "agents_ok lo syms as" and t: "targetSymbol \<in> set syms"
  shows "\<exists>as'. redefineAgents rnd targetSymbol as p = Inr (as', p + 3 * length as) \<and>
           length as' = length as \<and> agents_ok lo syms as'"
proof -
  have "targetSymbol \<in> fst ` set (symbolMappings a)" if "a \<in> set as" for a
  proof -
    from that obtain i where "i < length as" "a = as ! i" by (auto simp: in_set_conv_nth)
    with ok have "set syms \<subseteq> fst ` set (symbolMappings a)"
      by (simp add: agents_ok_def agent_ok_def)
    with t show ?thesis by blast
  qed
  then have "\<forall>a \<in> set as. targetSymbol \<in> fst ` set (symbolMappings a)" by blast
  from redefineAgents_result [OF this, of rnd p] obtain as' where
    r: "redefineAgents rnd targetSymbol as p = Inr (as', p + 3 * length as)"
    and l: "length as' = length as"
    and n: "\<forall>i < length as. \<exists>m. map_of (symbolMappings (as ! i)) targetSymbol = Some m \<and>
        as' ! i = (as ! i)\<lparr>symbolMappings := AList.update targetSymbol
                     (m\<lparr>vector := randomVector rnd (p + 3 * i), confidence := 0.3\<rparr>)
                     (symbolMappings (as ! i))\<rparr>"
    by blast
  have "agent_ok lo syms (length as') i (as' ! i)" if "i < length as'" for i
  proof -
    from that l have i: "i < length as" by simp
    with n obtain m where
      "as' ! i = (as ! i)\<lparr>symbolMappings := AList.update targetSymbol
                     (m\<lparr>vector := randomVector rnd (p + 3 * i), confidence := 0.3\<rparr>)
                     (symbolMappings (as ! i))\<rparr>" by blast
    moreover have "agent_ok lo syms (length as) i (as ! i)" using ok i by (simp add: agents_ok_def)
    ultimately show ?thesis using l
      by (simp add: agent_ok_update_mapping mapping_ok_def)
  qed
  then show ?thesis using r l by (simp add: agents_ok_def)
qed

lemma chooseShift_ok:
  assumes "random_ok rnd" "syms \<noteq> []"
  shows "\<exists>k t p1. chooseShift rnd syms p = (Some k, t, p1) \<and> k \<in> set shiftTypes \<and>
           (k = symbol_redefinition \<longrightarrow> (\<exists>x. t = Some x \<and> x \<in> set syms))"
proof -
  have ne: "shiftTypes \<noteq> []" by (simp add: shiftTypes_def)
  from elementAt_randomIndex [OF assms(1) ne, of p] obtain k where
    k: "elementAt shiftTypes (randomIndex rnd p (length shiftTypes)) = Some k" "k \<in> set shiftTypes"
    by blast
  from elementAt_randomIndex [OF assms, of "p + 1"] obtain x where
    x: "elementAt syms (randomIndex rnd (p + 1) (length syms)) = Some x" "x \<in> set syms"
    by blast
  show ?thesis using k x by (auto simp: chooseShift_def Let_def)
qed

subsection \<open>Steps and runs\<close>

lemma length_appendBounded: "length (appendBounded n prev x) \<le> Suc n"
  by (simp add: appendBounded_def)

lemma simulateStep_ok:
  assumes ok: "sim_ok lo s" and rnd: "random_ok rnd" and lo: "lo \<le> 1"
  shows "\<exists>s' p' q'. simulateStep rnd clk s p q = Inr (s', p', q') \<and> sim_ok lo s' \<and>
           step s' = step s \<and> symbols s' = symbols s \<and>
           length (agents s') = length (agents s)"
proof (cases "length (agents s) = 0")
  case True
  then show ?thesis using ok by (simp add: simulateStep_def)
next
  case False
  from ok have syms: "symbols s \<noteq> []" and aok: "agents_ok lo (symbols s) (agents s)"
    and logs: "length (communications s) \<le> 30" "length (driftHistory s) \<le> 100"
      "length (alignmentHistory s) \<le> 100"
    by (simp_all add: sim_ok_def)
  from False have ne: "agents s \<noteq> []" by simp
  define shifting where "shifting = shiftDue (step s)"
  obtain k t p1 where
    ch: "(if shifting then chooseShift rnd (symbols s) p else (None, None, p)) = (k, t, p1)"
    by (cases "if shifting then chooseShift rnd (symbols s) p else (None, None, p)") auto
  have tgt: "\<exists>x. t = Some x \<and> x \<in> set (symbols s)" if "shifting" "k = Some symbol_redefinition"
    using chooseShift_ok [OF rnd syms, of p] ch that by auto
  from agentsUpdater_ok [OF aok ne syms rnd lo, of clk "step s" p1 q] obtain x where
    x: "agentsUpdater rnd clk (step s) (symbols s) (agents s) p1 q = Inr x"
    and xok: "agents_ok lo (symbols s) (x_agents x)"
    and xlen: "length (x_agents x) = length (agents s)" by blast
  have "\<exists>as p2. (if shifting \<and> k = Some symbol_redefinition
              then (case t of None \<Rightarrow> Inl IllTyped
                    | Some t \<Rightarrow> redefineAgents rnd t (x_agents x) (x_rpos x))
              else Inr (x_agents x, x_rpos x)) = Inr (as, p2) \<and>
           agents_ok lo (symbols s) as \<and> length as = length (agents s)"
  proof (cases "shifting \<and> k = Some symbol_redefinition")
    case True
    with tgt obtain y where y: "t = Some y" "y \<in> set (symbols s)" by blast
    from agents_ok_redefine [OF xok y(2), of rnd "x_rpos x"] show ?thesis
      using True y xlen by auto
  next
    case False
    then show ?thesis using xok xlen by auto
  qed
  then obtain as p2 where
    r: "(if shifting \<and> k = Some symbol_redefinition
              then (case t of None \<Rightarrow> Inl IllTyped
                    | Some t \<Rightarrow> redefineAgents rnd t (x_agents x) (x_rpos x))
              else Inr (x_agents x, x_rpos x)) = Inr (as, p2)"
    and asok: "agents_ok lo (symbols s) as" and aslen: "length as = length (agents s)" by blast
  have b29: "length (appendBounded 29 prev c) \<le> 30" for prev :: "communication list" and c
    using length_appendBounded [of 29 prev c] by simp
  have b99d: "length (appendBounded 99 prev c) \<le> 100" for prev :: "driftSample list" and c
    using length_appendBounded [of 99 prev c] by simp
  have b99a: "length (appendBounded 99 prev c) \<le> 100" for prev :: "alignmentSample list" and c
    using length_appendBounded [of 99 prev c] by simp
  show ?thesis
    using False ch x r asok aslen syms logs
    unfolding simulateStep_def shifting_def
    by (simp add: Let_def sim_ok_def b29 b99d b99a split: option.split)
qed


lemma tick_ok:
  assumes ok: "sim_ok lo s" and rnd: "random_ok rnd" and lo: "lo \<le> 1"
  shows "\<exists>s' p' q'. tick rnd clk (s, p, q) = Inr (s', p', q') \<and> sim_ok lo s' \<and>
           step s' = step s + 1 \<and> symbols s' = symbols s \<and>
           length (agents s') = length (agents s)"
proof -
  from simulateStep_ok [OF assms, of clk p q] obtain s' p' q' where
    "simulateStep rnd clk s p q = Inr (s', p', q')" "sim_ok lo s'" "symbols s' = symbols s"
    "length (agents s') = length (agents s)" by blast
  then show ?thesis by (simp add: tick_def sim_ok_def)
qed

lemma run_ok:
  assumes rnd: "random_ok rnd" and lo: "lo \<le> 1"
  shows "sim_ok lo s \<Longrightarrow>
         \<exists>s' p' q'. run rnd clk n (s, p, q) = Inr (s', p', q') \<and> sim_ok lo s' \<and>
           step s' = step s + n \<and> symbols s' = symbols s \<and>
           length (agents s') = length (agents s)"
proof (induction n arbitrary: s p q)
  case 0
  then show ?case by simp
next
  case (Suc n)
  from tick_ok [OF Suc.prems rnd lo, of clk p q] obtain s1 p1 q1 where
    t: "tick rnd clk (s, p, q) = Inr (s1, p1, q1)" and ok: "sim_ok lo s1"
    and e: "step s1 = step s + 1" "symbols s1 = symbols s" "length (agents s1) = length (agents s)"
    by blast
  from Suc.IH [OF ok, of p1 q1] show ?case using t e by auto
qed

subsection \<open>Initial state\<close>

lemma initMappings_inv:
  assumes "random_ok rnd"
  shows "distinct (map fst al) \<Longrightarrow> (\<forall>(symbol, m) \<in> set al. mapping_ok m) \<Longrightarrow>
         distinct (map fst (fst (initMappings rnd syms al p))) \<and>
         (\<forall>(symbol, m) \<in> set (fst (initMappings rnd syms al p)). mapping_ok m) \<and>
         fst ` set (fst (initMappings rnd syms al p)) = fst ` set al \<union> set syms"
proof (induction syms arbitrary: al p)
  case Nil
  then show ?case by simp
next
  case (Cons symbol rest)
  from assms have r: "0 \<le> rnd (p + 3)" "rnd (p + 3) < 1" by (simp_all add: random_ok_def)
  then have m: "mapping_ok (initMapping rnd p)"
    by (simp add: initMapping_def mapping_ok_def)
  have d: "distinct (map fst (AList.update symbol (initMapping rnd p) al))"
    using Cons.prems(1) by (simp add: distinct_update)
  have a: "\<forall>(symbol, m) \<in> set (AList.update symbol (initMapping rnd p) al). mapping_ok m"
    using Cons.prems(2) m by (auto dest!: set_update_cases)
  from Cons.IH [OF d a, of "p + 4"] show ?case by (auto simp: dom_update)
qed

lemma initAgent_ok:
  assumes rnd: "random_ok rnd" and i: "i < 4" and lo: "lo \<le> 0.5"
  shows "agent_ok lo syms 4 i (fst (initAgent rnd syms i p))"
proof -
  obtain ms p' where im: "initMappings rnd syms [] p = (ms, p')"
    by (cases "initMappings rnd syms [] p")
  from initMappings_inv [OF rnd, of "[]" syms p] im have
    ms: "distinct (map fst ms)" "\<forall>(symbol, m) \<in> set ms. mapping_ok m" "fst ` set ms = set syms"
    by simp_all
  from rnd have r: "0 \<le> rnd p'" "rnd p' < 1" "0 \<le> rnd (p' + 1)" "rnd (p' + 1) < 1"
    "0 \<le> rnd (p' + 2)" "rnd (p' + 2) < 1" by (simp_all add: random_ok_def)
  have four: "[0..<4] = [0, 1, 2, 3 :: nat]" by (simp add: upt_rec)
  have tr: "distinct (map fst (map (\<lambda>j. (j, 0.5 :: real)) (filter (\<lambda>j. i \<noteq> j) [0..<4])))"
    by (simp add: comp_def distinct_map_filter)
  have keys: "j \<in> fst ` set (map (\<lambda>j. (j, 0.5 :: real)) (filter (\<lambda>j. i \<noteq> j) [0..<4]))"
    if "j < 4" "j \<noteq> i" for j
    using that by (auto simp: image_iff)
  show ?thesis
    using ms r tr keys lo unfolding initAgent_def im
    by (auto simp: agent_ok_def simp del: upt_Suc)
qed

lemma initAgent_trust:
  "(j, t) \<in> set (trustScores (fst (initAgent rnd syms i p))) \<Longrightarrow> t = 0.5"
  by (auto simp: initAgent_def case_prod_unfold Let_def)

lemma initAgentsFrom_nth:
  "length (fst (initAgentsFrom rnd syms is p)) = length is \<and>
   (\<forall>k < length is. \<exists>p'. fst (initAgentsFrom rnd syms is p) ! k = fst (initAgent rnd syms (is ! k) p'))"
proof (induction "is" arbitrary: p)
  case Nil
  then show ?case by simp
next
  case (Cons i "is")
  obtain a p1 where a: "initAgent rnd syms i p = (a, p1)" by (cases "initAgent rnd syms i p")
  obtain as p2 where as: "initAgentsFrom rnd syms is p1 = (as, p2)"
    by (cases "initAgentsFrom rnd syms is p1")
  from Cons.IH [of p1] as have
    l: "length as = length is"
    and n: "\<forall>k < length is. \<exists>p'. as ! k = fst (initAgent rnd syms (is ! k) p')" by simp_all
  have "\<exists>p'. (a # as) ! k = fst (initAgent rnd syms ((i # is) ! k) p')" if "k < length (i # is)" for k
  proof (cases k)
    case 0
    then show ?thesis using a by (auto intro: exI [of _ p])
  next
    case (Suc k')
    with that n show ?thesis by simp
  qed
  then show ?case using a as l by simp
qed

lemma initial_ok:
  assumes rnd: "random_ok rnd" and syms: "syms \<noteq> []" and lo: "lo \<le> 0.5"
  shows "sim_ok lo (fst (initial rnd syms p))"
proof -
  obtain as p' where ia: "initAgents rnd syms p = (as, p')" by (cases "initAgents rnd syms p")
  from initAgentsFrom_nth [of rnd syms "[0..<4]" p] ia have
    l: "length as = 4"
    and n: "\<forall>k < 4. \<exists>p'. as ! k = fst (initAgent rnd syms ([0..<4] ! k) p')"
    by (simp_all add: initAgents_def)
  have "agent_ok lo syms (length as) k (as ! k)" if "k < length as" for k
  proof -
    from that l have k: "k < 4" by simp
    with n obtain p' where "as ! k = fst (initAgent rnd syms ([0..<4] ! k) p')" by blast
    moreover have "[0..<4] ! k = k" using k by (metis add_0 nth_upt)
    ultimately show ?thesis using initAgent_ok [OF rnd k lo, of syms p'] l by simp
  qed
  then show ?thesis using syms by (simp add: initial_def ia sim_ok_def agents_ok_def)
qed

section \<open>What a step leaves alone\<close>

lemma adaptSymbol_frame:
  assumes "adaptSymbol rnd st success sender symbol (S, R, p) = Inr (S', R', p')"
  shows "memory S' = memory S \<and> memory R' = memory R \<and> trustScores S' = trustScores S \<and>
         (if success
          then \<exists>t. map_of (trustScores R) sender = Some t \<and>
                 trustScores R' = AList.update sender (min 1 (t + 0.02)) (trustScores R)
          else trustScores R' = trustScores R)"
  using assms by (auto simp: adaptSymbol_def Let_def split: option.splits if_splits)

lemma adaptSequence_memory:
  "adaptSequence rnd st success sender sequence (S, R, p) = Inr (S', R', p') \<Longrightarrow>
   memory S' = memory S \<and> memory R' = memory R \<and> trustScores S' = trustScores S \<and>
   (\<not> success \<longrightarrow> trustScores R' = trustScores R)"
proof (induction sequence arbitrary: S R p)
  case Nil
  then show ?case by simp
next
  case (Cons symbol rest)
  from Cons.prems obtain S1 R1 p1 where
    1: "adaptSymbol rnd st success sender symbol (S, R, p) = Inr (S1, R1, p1)"
    and 2: "adaptSequence rnd st success sender rest (S1, R1, p1) = Inr (S', R', p')"
    by (auto split: sum.splits)
  from adaptSymbol_frame [OF 1] Cons.IH [OF 2] show ?case by (auto split: if_splits)
qed

lemma communicate_InrE:
  assumes "communicate rnd clk st syms newAgents sender receiver p q = Inr x"
  obtains S R picked p2 sequence d S' R' p3 where
    "pickSequence rnd syms p = (picked, p2)"
    "elementAt newAgents sender = Some S" "elementAt newAgents receiver = Some R"
    "those picked = Some sequence" "totalDistance S R sequence (Num 0) = Inr d"
    "adaptSequence rnd st (js_less (js_div_count d (length sequence)) 0.5) (nat sender)
       sequence (S, R, p2) = Inr (S', R', p3)"
    "x_agents x =
       (newAgents
          [nat sender := remember
             \<lparr>m_step = st, m_action = sent, m_sequence = sequence,
              m_success = js_less (js_div_count d (length sequence)) 0.5,
              m_partner = nat receiver\<rparr> S'])
          [nat receiver := remember
             \<lparr>m_step = st, m_action = received, m_sequence = sequence,
              m_success = js_less (js_div_count d (length sequence)) 0.5,
              m_partner = nat sender\<rparr> R']"
    "x_communication x = Some
       \<lparr>c_id = clk q, c_sender = nat sender, c_receiver = nat receiver,
        c_sequence = sequence,
        c_success = js_less (js_div_count d (length sequence)) 0.5, c_step = st,
        c_distance = js_div_count d (length sequence),
        c_trustBefore = map_of (trustScores R') (nat sender),
        c_sequenceLength = length sequence\<rparr>"
    "x_pattern x = (if length sequence > 1 then Some (join ''-'' sequence) else None)"
    "x_rpos x = p3" "x_cpos x = q + 1"
proof -
  obtain picked p2 where pk: "pickSequence rnd syms p = (picked, p2)"
    by (cases "pickSequence rnd syms p")
  from assms obtain S where eS: "elementAt newAgents sender = Some S"
    by (cases "elementAt newAgents sender") (simp_all add: communicate_def pk)
  from assms obtain R where eR: "elementAt newAgents receiver = Some R"
    by (cases "elementAt newAgents receiver") (simp_all add: communicate_def pk eS)
  from assms obtain sequence where sq: "those picked = Some sequence"
    by (cases "those picked") (simp_all add: communicate_def pk eS eR)
  from assms obtain d where d: "totalDistance S R sequence (Num 0) = Inr d"
    by (cases "totalDistance S R sequence (Num 0)") (simp_all add: communicate_def pk eS eR sq)
  from assms obtain S' R' p3 where
    ad: "adaptSequence rnd st (js_less (js_div_count d (length sequence)) 0.5) (nat sender)
           sequence (S, R, p2) = Inr (S', R', p3)"
    by (cases "adaptSequence rnd st (js_less (js_div_count d (length sequence)) 0.5)
                 (nat sender) sequence (S, R, p2)")
       (auto simp: communicate_def pk eS eR sq d Let_def)
  from assms have x: "x = \<lparr>x_agents =
                 (newAgents
                    [nat sender := remember
                       \<lparr>m_step = st, m_action = sent, m_sequence = sequence,
                        m_success = js_less (js_div_count d (length sequence)) 0.5,
                        m_partner = nat receiver\<rparr> S'])
                    [nat receiver := remember
                       \<lparr>m_step = st, m_action = received, m_sequence = sequence,
                        m_success = js_less (js_div_count d (length sequence)) 0.5,
                        m_partner = nat sender\<rparr> R'],
               x_communication = Some
                 \<lparr>c_id = clk q, c_sender = nat sender, c_receiver = nat receiver,
                  c_sequence = sequence,
                  c_success = js_less (js_div_count d (length sequence)) 0.5, c_step = st,
                  c_distance = js_div_count d (length sequence),
                  c_trustBefore = map_of (trustScores R') (nat sender),
                  c_sequenceLength = length sequence\<rparr>,
               x_pattern = (if length sequence > 1 then Some (join ''-'' sequence) else None),
               x_rpos = p3, x_cpos = q + 1\<rparr>"
    using ad by (simp add: communicate_def pk eS eR sq d Let_def)
  show thesis
    by (rule that [OF pk eS eR sq d ad]) (simp_all add: x)
qed

lemma forgetAgents_frame:
  assumes "i < length as"
  shows "memory (fst (forgetAgents rnd st as p) ! i) = memory (as ! i) \<and>
         trustScores (fst (forgetAgents rnd st as p) ! i) = trustScores (as ! i)"
  using forgetAgents_nth [OF assms, of rnd st p] by auto

lemma redefineAgents_frame:
  "redefineAgents rnd t as p = Inr (as', p') \<Longrightarrow>
   length as' = length as \<and>
   (\<forall>i < length as. memory (as' ! i) = memory (as ! i) \<and>
      trustScores (as' ! i) = trustScores (as ! i))"
proof (induction as arbitrary: p as')
  case Nil
  then show ?case by simp
next
  case (Cons a as)
  from Cons.prems obtain m bs where
    m: "map_of (symbolMappings a) t = Some m"
    and r: "redefineAgents rnd t as (p + 3) = Inr (bs, p')"
    and as': "as' = a\<lparr>symbolMappings := AList.update t
                 (m\<lparr>vector := randomVector rnd p, confidence := 0.3\<rparr>) (symbolMappings a)\<rparr> # bs"
    by (auto split: option.splits sum.splits)
  from Cons.IH [OF r] show ?case using as' by (auto simp: nth_Cons split: nat.splits)
qed


lemma elementAt_SomeD:
  "elementAt xs i = Some x \<Longrightarrow> 0 \<le> i \<and> nat i < length xs \<and> x = xs ! nat i"
  by (auto simp: elementAt_def split: if_splits)



lemma agentsUpdater_cases:
  assumes "agentsUpdater rnd clk st syms as p q = Inr x"
  obtains (idle) newAgents p1 where
      "forgetAgents rnd st as p = (newAgents, p1)"
      "randomIndex rnd p1 (length as) = randomIndex rnd (p1 + 1) (length as)"
      "x = \<lparr>x_agents = newAgents, x_communication = None, x_pattern = None,
             x_rpos = p1 + 2, x_cpos = q\<rparr>"
  | (exchange) newAgents p1 where
      "forgetAgents rnd st as p = (newAgents, p1)"
      "randomIndex rnd p1 (length as) \<noteq> randomIndex rnd (p1 + 1) (length as)"
      "communicate rnd clk st syms newAgents (randomIndex rnd p1 (length as))
         (randomIndex rnd (p1 + 1) (length as)) (p1 + 2) q = Inr x"
proof -
  obtain newAgents p1 where fa: "forgetAgents rnd st as p = (newAgents, p1)"
    by (cases "forgetAgents rnd st as p")
  have len: "length newAgents = length as"
    using length_forgetAgents [of rnd st as p] fa by simp
  show thesis
  proof (cases "randomIndex rnd p1 (length as) = randomIndex rnd (p1 + 1) (length as)")
    case True
    with assms have "x = \<lparr>x_agents = newAgents, x_communication = None, x_pattern = None,
             x_rpos = p1 + 2, x_cpos = q\<rparr>"
      by (simp add: agentsUpdater_def fa len Let_def)
    with fa True show thesis by (rule idle)
  next
    case False
    with assms have "communicate rnd clk st syms newAgents (randomIndex rnd p1 (length as))
         (randomIndex rnd (p1 + 1) (length as)) (p1 + 2) q = Inr x"
      by (simp add: agentsUpdater_def fa len Let_def)
    with fa False show thesis by (rule exchange)
  qed
qed




lemma simulateStep_InrE:
  assumes "simulateStep rnd clk s p q = Inr (s', p', q')" and "agents s \<noteq> []"
  obtains k t p1 x as p2 where
    "(if shiftDue (step s) then chooseShift rnd (symbols s) p else (None, None, p)) = (k, t, p1)"
    "agentsUpdater rnd clk (step s) (symbols s) (agents s) p1 q = Inr x"
    "(if shiftDue (step s) \<and> k = Some symbol_redefinition
      then (case t of None \<Rightarrow> Inl IllTyped
            | Some t \<Rightarrow> redefineAgents rnd t (x_agents x) (x_rpos x))
      else Inr (x_agents x, x_rpos x)) = Inr (as, p2)"
    "s' = s\<lparr>agents := as,
            communications :=
              (case x_communication x of
                 None \<Rightarrow> communications s
               | Some c \<Rightarrow> appendBounded 29 (communications s) c),
            syntaxPatterns :=
              (case x_pattern x of
                 None \<Rightarrow> syntaxPatterns s
               | Some pattern \<Rightarrow> countPattern pattern (syntaxPatterns s)),
            contextShifts :=
              (if shiftDue (step s)
               then contextShifts s @ [\<lparr>s_step = step s, s_type = k, s_id = clk (x_cpos x)\<rparr>]
               else contextShifts s),
            driftHistory :=
              (case calculateDriftMetrics (step s) (symbols s) (agents s) of
                 None \<Rightarrow> driftHistory s
               | Some (d, a) \<Rightarrow> appendBounded 99 (driftHistory s) d),
            alignmentHistory :=
              (case calculateDriftMetrics (step s) (symbols s) (agents s) of
                 None \<Rightarrow> alignmentHistory s
               | Some (d, a) \<Rightarrow> appendBounded 99 (alignmentHistory s) a)\<rparr>"
    "p' = p2" "q' = (if shiftDue (step s) then x_cpos x + 1 else x_cpos x)"
proof -
  obtain k t p1 where
    ch: "(if shiftDue (step s) then chooseShift rnd (symbols s) p else (None, None, p)) = (k, t, p1)"
    by (cases "if shiftDue (step s) then chooseShift rnd (symbols s) p else (None, None, p)") auto
  note defs = simulateStep_def Let_def ch
  from assms obtain x where
    x: "agentsUpdater rnd clk (step s) (symbols s) (agents s) p1 q = Inr x"
    by (cases "agentsUpdater rnd clk (step s) (symbols s) (agents s) p1 q") (simp_all add: defs)
  define r where "r = (if shiftDue (step s) \<and> k = Some symbol_redefinition
      then (case t of None \<Rightarrow> Inl IllTyped
            | Some t \<Rightarrow> redefineAgents rnd t (x_agents x) (x_rpos x))
      else Inr (x_agents x, x_rpos x))"
  from assms obtain as p2 where r: "r = Inr (as, p2)"
    by (cases r) (auto simp: defs x r_def)
  from assms have "s' = s\<lparr>agents := as,
            communications :=
              (case x_communication x of
                 None \<Rightarrow> communications s
               | Some c \<Rightarrow> appendBounded 29 (communications s) c),
            syntaxPatterns :=
              (case x_pattern x of
                 None \<Rightarrow> syntaxPatterns s
               | Some pattern \<Rightarrow> countPattern pattern (syntaxPatterns s)),
            contextShifts :=
              (if shiftDue (step s)
               then contextShifts s @ [\<lparr>s_step = step s, s_type = k, s_id = clk (x_cpos x)\<rparr>]
               else contextShifts s),
            driftHistory :=
              (case calculateDriftMetrics (step s) (symbols s) (agents s) of
                 None \<Rightarrow> driftHistory s
               | Some (d, a) \<Rightarrow> appendBounded 99 (driftHistory s) d),
            alignmentHistory :=
              (case calculateDriftMetrics (step s) (symbols s) (agents s) of
                 None \<Rightarrow> alignmentHistory s
               | Some (d, a) \<Rightarrow> appendBounded 99 (alignmentHistory s) a)\<rparr> \<and>
          p' = p2 \<and> q' = (if shiftDue (step s) then x_cpos x + 1 else x_cpos x)"
    using r [unfolded r_def] by (simp add: defs x)
  then show thesis using that [OF ch x r [unfolded r_def]] by blast
qed


section \<open>Bounded histories\<close>



lemma appended_cong: "appended old new \<Longrightarrow> old' = old \<Longrightarrow> new' = new \<Longrightarrow> appended old' new'"
  by simp




section \<open>Confidence and trust stay in the unit interval\<close>

text \<open>
  Claim C4.  From a state of the data model (with trust values in \<open>[0, 1]\<close>) a run of
  any number of steps, with its forgetting passes, successful and failed exchanges
  and context shifts, ends in a state where every confidence and every trust value
  lies in \<open>[0, 1]\<close>.  The initial state is such a state.
\<close>

theorem confidence_trust_unit_interval:
  assumes "random_ok rnd" and "sim_ok 0 s"
  shows "(\<exists>s' p' q'. run rnd clk n (s, p, q) = Inr (s', p', q') \<and>
            (\<forall>a \<in> set (agents s').
               (\<forall>(symbol, m) \<in> set (symbolMappings a). 0 \<le> confidence m \<and> confidence m \<le> 1) \<and>
               (\<forall>(j, t) \<in> set (trustScores a). 0 \<le> t \<and> t \<le> 1))) \<and>
         (syms \<noteq> [] \<longrightarrow> sim_ok 0 (fst (initial rnd syms p0)))"
proof (intro conjI impI)
  from run_ok [OF assms(1) _ assms(2), of clk n p q] obtain s' p' q' where
    r: "run rnd clk n (s, p, q) = Inr (s', p', q')" and ok: "sim_ok 0 s'" by auto
  have "(\<forall>(symbol, m) \<in> set (symbolMappings a). 0 \<le> confidence m \<and> confidence m \<le> 1) \<and>
        (\<forall>(j, t) \<in> set (trustScores a). 0 \<le> t \<and> t \<le> 1)" if "a \<in> set (agents s')" for a
  proof -
    from that obtain i where "i < length (agents s')" "a = agents s' ! i"
      by (auto simp: in_set_conv_nth)
    with ok have "agent_ok 0 (symbols s') (length (agents s')) i a"
      by (simp add: sim_ok_def agents_ok_def)
    then show ?thesis by (auto simp: agent_ok_def mapping_ok_def)
  qed
  with r show "\<exists>s' p' q'. run rnd clk n (s, p, q) = Inr (s', p', q') \<and>
            (\<forall>a \<in> set (agents s').
               (\<forall>(symbol, m) \<in> set (symbolMappings a). 0 \<le> confidence m \<and> confidence m \<le> 1) \<and>
               (\<forall>(j, t) \<in> set (trustScores a). 0 \<le> t \<and> t \<le> 1))"
    by blast
next
  assume "syms \<noteq> []"
  then show "sim_ok 0 (fst (initial rnd syms p0))"
    using initial_ok [OF assms(1), of syms 0 p0] by simp
qed

text \<open>The hypotheses of C4 hold for the initial state over a one-symbol vocabulary.\<close>

theorem confidence_trust_unit_interval_witness:
  "random_ok (\<lambda>_. 0) \<and> sim_ok 0 (fst (initial (\<lambda>_. 0) [''a''] 0)) \<and> [''a''] \<noteq> [] \<and>
   (\<exists>s' p' q'. run (\<lambda>_. 0) (\<lambda>_. 0) 3 (fst (initial (\<lambda>_. 0) [''a''] 0), 0, 0) = Inr (s', p', q') \<and>
      (\<forall>a \<in> set (agents s').
         (\<forall>(symbol, m) \<in> set (symbolMappings a). 0 \<le> confidence m \<and> confidence m \<le> 1) \<and>
         (\<forall>(j, t) \<in> set (trustScores a). 0 \<le> t \<and> t \<le> 1)))"
proof -
  have h1: "random_ok (\<lambda>_. 0)" by (simp add: random_ok_def)
  have h2: "sim_ok 0 (fst (initial (\<lambda>_. 0) [''a''] 0))"
    by (simp add: initial_def initAgents_def initAgent_def initMapping_def randomVector_def
        sim_ok_def agents_ok_def agent_ok_def mapping_ok_def upt_rec Let_def
        All_less_Suc image_iff)
  have h3: "[''a''] \<noteq> []" by simp
  from confidence_trust_unit_interval [OF h1 h2, of "\<lambda>_. 0" 3 0 0]
  show ?thesis by (intro conjI h1 h2 h3) (rule conjunct1)
qed

section \<open>The empty population\<close>

text \<open>
  Claim C9, as the code has it.  With no agents a step is not an error and changes
  nothing but the step counter, which it advances: \<open>simulateStep\<close> and
  \<open>calculateDriftMetrics\<close> both return at once, so no drift or alignment sample is
  recorded for the step.
\<close>

theorem empty_population_step:
  assumes "agents s = []"
  shows "tick rnd clk (s, p, q) = Inr (s\<lparr>step := step s + 1\<rparr>, p, q)"
  using assms by (simp add: tick_def simulateStep_def)

text \<open>A state without agents, at step 7.\<close>

theorem empty_population_step_witness:
  "agents \<lparr>step = 7, agents = [], symbols = [''a''], communications = [],
            driftHistory = [], alignmentHistory = [], syntaxPatterns = [],
            contextShifts = []\<rparr> = [] \<and>
   tick (\<lambda>_. 0) (\<lambda>_. 0)
     (\<lparr>step = 7, agents = [], symbols = [''a''], communications = [],
       driftHistory = [], alignmentHistory = [], syntaxPatterns = [],
       contextShifts = []\<rparr>, 0, 0) =
   Inr (\<lparr>step = 8, agents = [], symbols = [''a''], communications = [],
         driftHistory = [], alignmentHistory = [], syntaxPatterns = [],
         contextShifts = []\<rparr>, 0, 0)"
  using empty_population_step [of "\<lparr>step = 7, agents = [], symbols = [''a''], communications = [],
            driftHistory = [], alignmentHistory = [], syntaxPatterns = [],
            contextShifts = []\<rparr>" "\<lambda>_. 0" "\<lambda>_. 0" 0 0]
  by simp

text \<open>
  Claim C9 as stated has the step append a drift sample 0 and an alignment sample
  100.  After the first step of an empty population both histories are still empty.
\<close>

theorem empty_population_no_sample:
  "tick (\<lambda>_. 0) (\<lambda>_. 0)
     (\<lparr>step = 0, agents = [], symbols = [''a''], communications = [],
       driftHistory = [], alignmentHistory = [], syntaxPatterns = [],
       contextShifts = []\<rparr>, 0, 0) =
   Inr (\<lparr>step = 1, agents = [], symbols = [''a''], communications = [],
         driftHistory = [], alignmentHistory = [], syntaxPatterns = [],
         contextShifts = []\<rparr>, 0, 0)"
  by (simp add: tick_def simulateStep_def)

section \<open>The outcome of an exchange\<close>

lemma foldl_js_add_NaN [simp]: "foldl js_add NaN ds = NaN"
  by (induction ds) simp_all












section \<open>Adaptation after an exchange\<close>










section \<open>The scheduled context shift\<close>





section \<open>Trust never decreases\<close>

lemma trust_grows_refl: "trustScores a' = trustScores a \<Longrightarrow> trust_grows a a'"
  by (simp add: trust_grows_def)

lemma trust_grows_trans: "trust_grows a b \<Longrightarrow> trust_grows b c \<Longrightarrow> trust_grows a c"
  unfolding trust_grows_def by (meson order_trans)

lemma trust_grows_cong:
  "trust_grows a b \<Longrightarrow> trustScores a' = trustScores a \<Longrightarrow> trustScores b' = trustScores b \<Longrightarrow>
   trust_grows a' b'"
  by (simp add: trust_grows_def)

lemma adaptSymbol_trust_grows:
  assumes R: "agent_ok lo syms n ri R"
    and a: "adaptSymbol rnd st success sender symbol (S, R, p) = Inr (S', R', p')"
  shows "trust_grows R R' \<and> trustScores S' = trustScores S"
proof (cases success)
  case False
  with adaptSymbol_frame [OF a] show ?thesis by (simp add: trust_grows_refl)
next
  case True
  with adaptSymbol_frame [OF a] obtain t where
    t: "map_of (trustScores R) sender = Some t"
    and R': "trustScores R' = AList.update sender (min 1 (t + 0.02)) (trustScores R)"
    and S': "trustScores S' = trustScores S" by auto
  from agent_ok_trust [OF R t] have "t \<le> min 1 (t + 0.02)" by simp
  with t have "trust_grows R R'" by (auto simp: trust_grows_def R' update_conv')
  with S' show ?thesis by simp
qed

lemma adaptSequence_trust_grows:
  assumes "agent_ok lo syms n si S" "agent_ok lo syms n ri R"
    and "set sequence \<subseteq> set syms" and si: "si < n" "si \<noteq> ri" and lo: "lo \<le> 1"
    and "adaptSequence rnd st success si sequence (S, R, p) = Inr (S', R', p')"
  shows "trust_grows R R' \<and> trustScores S' = trustScores S"
  using assms(1-3,7)
proof (induction sequence arbitrary: S R p)
  case Nil
  then show ?case by (simp add: trust_grows_refl)
next
  case (Cons symbol rest)
  from Cons.prems(3) have sym: "symbol \<in> set syms" and rest: "set rest \<subseteq> set syms" by simp_all
  from adaptSymbol_ok [OF Cons.prems(1,2) sym si lo, of rnd st success p]
  obtain S1 R1 p1 where
    1: "adaptSymbol rnd st success si symbol (S, R, p) = Inr (S1, R1, p1)"
    and ok: "agent_ok lo syms n si S1" "agent_ok lo syms n ri R1" by blast
  from Cons.prems(4) 1 have 2: "adaptSequence rnd st success si rest (S1, R1, p1) = Inr (S', R', p')"
    by simp
  from adaptSymbol_trust_grows [OF Cons.prems(2) 1] Cons.IH [OF ok rest 2]
  show ?case by (auto intro: trust_grows_trans)
qed

lemma those_map_Some: "those xs = Some ys \<Longrightarrow> xs = map Some ys"
  by (induction xs arbitrary: ys) (auto split: option.splits)

lemma pickSequence_subset:
  assumes "pickSequence rnd syms p = (picked, p2)" "those picked = Some sequence"
  shows "set sequence \<subseteq> set syms"
proof
  fix x assume "x \<in> set sequence"
  with those_map_Some [OF assms(2)] have "Some x \<in> set picked" by auto
  with assms(1) obtain i where "elementAt syms i = Some x"
    by (auto simp: pickSequence_def Let_def)
  then show "x \<in> set syms" by (auto simp: elementAt_def split: if_splits)
qed

lemma communicate_trust_grows:
  assumes nok: "agents_ok lo syms newAgents" and lo: "lo \<le> 1" and diff: "sender \<noteq> receiver"
    and c: "communicate rnd clk st syms newAgents sender receiver p q = Inr x"
  shows "length (x_agents x) = length newAgents \<and>
         (\<forall>i < length newAgents. trust_grows (newAgents ! i) (x_agents x ! i))"
  using c
proof (cases rule: communicate_InrE)
  case (1 S R picked p2 sequence d S' R' p3)
  from elementAt_SomeD [OF 1(2)] elementAt_SomeD [OF 1(3)] diff have
    si: "nat sender < length newAgents" "nat sender \<noteq> nat receiver"
    and ri: "nat receiver < length newAgents"
    and SR: "S = newAgents ! nat sender" "R = newAgents ! nat receiver" by auto
  have Sok: "agent_ok lo syms (length newAgents) (nat sender) S"
    and Rok: "agent_ok lo syms (length newAgents) (nat receiver) R"
    using nok si ri SR by (simp_all add: agents_ok_def)
  note sub = pickSequence_subset [OF 1(1,4)]
  from adaptSequence_trust_grows [OF Sok Rok sub si lo 1(6)] have
    g: "trust_grows R R'" "trustScores S' = trustScores S" by simp_all
  have tr: "trustScores (remember e a) = trustScores a" for e a
    by (simp add: remember_def Let_def)
  have "trust_grows (newAgents ! i) (x_agents x ! i)" if "i < length newAgents" for i
  proof (cases "i = nat receiver")
    case True
    have "trust_grows R (remember e R')" for e
      using g(1) by (rule trust_grows_cong) (simp_all add: tr)
    then show ?thesis using True that SR by (simp add: 1(7))
  next
    case False
    show ?thesis
    proof (cases "i = nat sender")
      case True
      have "trust_grows S (remember e S')" for e
        by (rule trust_grows_refl) (simp add: tr g(2))
      then show ?thesis using True False that SR by (simp add: 1(7))
    next
      case False
      with \<open>i \<noteq> nat receiver\<close> show ?thesis by (simp add: 1(7) trust_grows_refl)
    qed
  qed
  then show ?thesis by (simp add: 1(7))
qed

lemma agentsUpdater_trust_grows:
  assumes ok: "agents_ok lo syms as" and lo: "lo \<le> 1"
    and u: "agentsUpdater rnd clk st syms as p q = Inr x"
  shows "length (x_agents x) = length as \<and>
         (\<forall>i < length as. trust_grows (as ! i) (x_agents x ! i))"
  using u
proof (cases rule: agentsUpdater_cases)
  case (idle newAgents p1)
  have "length newAgents = length as"
    using length_forgetAgents [of rnd st as p] idle(1) by simp
  moreover have "trust_grows (as ! i) (newAgents ! i)" if "i < length as" for i
    using forgetAgents_frame [OF that, of rnd st p] idle(1) by (simp add: trust_grows_refl)
  ultimately show ?thesis using idle(3) by simp
next
  case (exchange newAgents p1)
  have len: "length newAgents = length as"
    using length_forgetAgents [of rnd st as p] exchange(1) by simp
  have nok: "agents_ok lo syms newAgents"
    using agents_ok_forget [OF ok, of rnd st p] exchange(1) by simp
  have fr: "trustScores (newAgents ! i) = trustScores (as ! i)" if "i < length as" for i
    using forgetAgents_frame [OF that, of rnd st p] exchange(1) by simp
  from communicate_trust_grows [OF nok lo exchange(2,3)] have
    l: "length (x_agents x) = length newAgents"
    and g: "\<forall>i < length newAgents. trust_grows (newAgents ! i) (x_agents x ! i)" by simp_all
  have "trust_grows (as ! i) (x_agents x ! i)" if "i < length as" for i
  proof -
    from g that len have "trust_grows (newAgents ! i) (x_agents x ! i)" by simp
    then show ?thesis by (rule trust_grows_cong) (simp_all add: fr [OF that])
  qed
  then show ?thesis using l len by simp
qed

lemma simulateStep_trust_grows:
  assumes ok: "sim_ok lo s" and lo: "lo \<le> 1"
    and st: "simulateStep rnd clk s p q = Inr (s', p', q')"
  shows "length (agents s') = length (agents s) \<and>
         (\<forall>i < length (agents s). trust_grows (agents s ! i) (agents s' ! i))"
proof (cases "agents s = []")
  case True
  with st show ?thesis by (simp add: simulateStep_def)
next
  case False
  from ok have aok: "agents_ok lo (symbols s) (agents s)" by (simp add: sim_ok_def)
  from st False show ?thesis
  proof (cases rule: simulateStep_InrE)
    case (1 k t p1 x as p2)
    note g = agentsUpdater_trust_grows [OF aok lo 1(2)]
    have fr: "length as = length (x_agents x) \<and>
              (\<forall>i < length (x_agents x). trustScores (as ! i) = trustScores (x_agents x ! i))"
    proof (cases "shiftDue (step s) \<and> k = Some symbol_redefinition")
      case True
      with 1(3) obtain y where "redefineAgents rnd y (x_agents x) (x_rpos x) = Inr (as, p2)"
        by (cases t) simp_all
      from redefineAgents_frame [OF this] show ?thesis by simp
    next
      case False
      with 1(3) show ?thesis by auto
    qed
    have ag: "agents s' = as" by (simp add: 1(4))
    have "trust_grows (agents s ! i) (agents s' ! i)" if "i < length (agents s)" for i
    proof -
      from g that have "trust_grows (agents s ! i) (x_agents x ! i)" by simp
      then show ?thesis
        by (rule trust_grows_cong) (use fr g that in \<open>simp_all add: ag\<close>)
    qed
    then show ?thesis using fr g ag by simp
  qed
qed


lemma initial_trust:
  assumes "a \<in> set (agents (fst (initial rnd syms p)))" "(j, t) \<in> set (trustScores a)"
  shows "t = 0.5"
proof -
  obtain as p' where ia: "initAgents rnd syms p = (as, p')" by (cases "initAgents rnd syms p")
  from initAgentsFrom_nth [of rnd syms "[0..<4]" p] ia have
    l: "length as = 4"
    and n: "\<forall>k < 4. \<exists>p'. as ! k = fst (initAgent rnd syms ([0..<4] ! k) p')"
    by (simp_all add: initAgents_def)
  from assms(1) ia have "a \<in> set as" by (simp add: initial_def)
  then obtain k where "k < length as" "a = as ! k" by (auto simp: in_set_conv_nth)
  with l n obtain p' where "a = fst (initAgent rnd syms ([0..<4] ! k) p')" by auto
  with assms(2) show ?thesis using initAgent_trust by blast
qed

lemma redefineAgents_trust:
  assumes "redefineAgents rnd t as p = Inr (as', p')"
  shows "map trustScores as' = map trustScores as"
  using redefineAgents_frame [OF assms] by (auto intro: nth_equalityI)

text \<open>
  Claim C10.  Every trust value is exactly 0.5 in the initial state and lies in
  \<open>[0.5, 1]\<close> after any number of steps from it.  In one step from a state of the data
  model no trust value of any agent toward any peer goes down.  Trust is not written
  by forgetting, by a context shift, or by the adaptation after a failed exchange;
  the adaptation for a symbol of a successful exchange writes the receiver's trust
  toward the sender, as \<open>min 1 (t + 0.02)\<close>, and nothing else of the trust.
\<close>

theorem trust_never_decreases:
  assumes rnd: "random_ok rnd" and syms: "syms \<noteq> []"
  shows "(\<forall>a \<in> set (agents (fst (initial rnd syms p0))).
            \<forall>(j, t) \<in> set (trustScores a). t = 0.5) \<and>
         (\<exists>s' p' q'. run rnd clk n (fst (initial rnd syms p0), p, q) = Inr (s', p', q') \<and>
            (\<forall>a \<in> set (agents s'). \<forall>(j, t) \<in> set (trustScores a). 0.5 \<le> t \<and> t \<le> 1)) \<and>
         (sim_ok lo s \<and> lo \<le> 1 \<longrightarrow>
            (\<exists>s' p' q'. tick rnd clk (s, p1, q1) = Inr (s', p', q') \<and>
               length (agents s') = length (agents s) \<and>
               (\<forall>i < length (agents s). trust_grows (agents s ! i) (agents s' ! i)))) \<and>
         (\<forall>i < length as. trustScores (fst (forgetAgents rnd st as p2) ! i) = trustScores (as ! i)) \<and>
         (\<forall>as' p'. redefineAgents rnd target as p2 = Inr (as', p') \<longrightarrow>
            map trustScores as' = map trustScores as) \<and>
         (\<forall>S R S' R' p'.
            adaptSequence rnd st False sender sequence (S, R, p2) = Inr (S', R', p') \<longrightarrow>
            trustScores S' = trustScores S \<and> trustScores R' = trustScores R) \<and>
         (\<forall>S R S' R' p'.
            adaptSymbol rnd st True sender symbol (S, R, p2) = Inr (S', R', p') \<longrightarrow>
            trustScores S' = trustScores S \<and>
            (\<exists>t. map_of (trustScores R) sender = Some t \<and>
               trustScores R' = AList.update sender (min 1 (t + 0.02)) (trustScores R)))"
proof (intro conjI)
  show "\<forall>a \<in> set (agents (fst (initial rnd syms p0))). \<forall>(j, t) \<in> set (trustScores a). t = 0.5"
    using initial_trust by blast
next
  have ok0: "sim_ok 0.5 (fst (initial rnd syms p0))" by (rule initial_ok [OF rnd syms]) simp
  from run_ok [OF rnd _ ok0, of clk n p q] obtain s' p' q' where
    r: "run rnd clk n (fst (initial rnd syms p0), p, q) = Inr (s', p', q')"
    and ok: "sim_ok 0.5 s'" by auto
  have "\<forall>(j, t) \<in> set (trustScores a). 0.5 \<le> t \<and> t \<le> 1" if "a \<in> set (agents s')" for a
  proof -
    from that obtain i where "i < length (agents s')" "a = agents s' ! i"
      by (auto simp: in_set_conv_nth)
    with ok have "agent_ok 0.5 (symbols s') (length (agents s')) i a"
      by (simp add: sim_ok_def agents_ok_def)
    then show ?thesis by (simp add: agent_ok_def)
  qed
  with r show "\<exists>s' p' q'. run rnd clk n (fst (initial rnd syms p0), p, q) = Inr (s', p', q') \<and>
            (\<forall>a \<in> set (agents s'). \<forall>(j, t) \<in> set (trustScores a). 0.5 \<le> t \<and> t \<le> 1)"
    by blast
next
  show "sim_ok lo s \<and> lo \<le> 1 \<longrightarrow>
            (\<exists>s' p' q'. tick rnd clk (s, p1, q1) = Inr (s', p', q') \<and>
               length (agents s') = length (agents s) \<and>
               (\<forall>i < length (agents s). trust_grows (agents s ! i) (agents s' ! i)))"
  proof
    assume a: "sim_ok lo s \<and> lo \<le> 1"
    then have ok: "sim_ok lo s" and lo: "lo \<le> 1" by simp_all
    from simulateStep_ok [OF ok rnd lo, of clk p1 q1] obtain s' p' q' where
      st: "simulateStep rnd clk s p1 q1 = Inr (s', p', q')" by blast
    from simulateStep_trust_grows [OF ok lo st] st
    show "\<exists>s' p' q'. tick rnd clk (s, p1, q1) = Inr (s', p', q') \<and>
               length (agents s') = length (agents s) \<and>
               (\<forall>i < length (agents s). trust_grows (agents s ! i) (agents s' ! i))"
      by (simp add: tick_def)
  qed
next
  show "\<forall>i < length as. trustScores (fst (forgetAgents rnd st as p2) ! i) = trustScores (as ! i)"
    using forgetAgents_frame by blast
next
  show "\<forall>as' p'. redefineAgents rnd target as p2 = Inr (as', p') \<longrightarrow>
            map trustScores as' = map trustScores as"
    using redefineAgents_trust by blast
next
  show "\<forall>S R S' R' p'.
            adaptSequence rnd st False sender sequence (S, R, p2) = Inr (S', R', p') \<longrightarrow>
            trustScores S' = trustScores S \<and> trustScores R' = trustScores R"
    using adaptSequence_memory by blast
next
  show "\<forall>S R S' R' p'.
            adaptSymbol rnd st True sender symbol (S, R, p2) = Inr (S', R', p') \<longrightarrow>
            trustScores S' = trustScores S \<and>
            (\<exists>t. map_of (trustScores R) sender = Some t \<and>
               trustScores R' = AList.update sender (min 1 (t + 0.02)) (trustScores R))"
  proof (intro allI impI)
    fix S R S' R' p'
    assume "adaptSymbol rnd st True sender symbol (S, R, p2) = Inr (S', R', p')"
    from adaptSymbol_frame [OF this]
    show "trustScores S' = trustScores S \<and>
            (\<exists>t. map_of (trustScores R) sender = Some t \<and>
               trustScores R' = AList.update sender (min 1 (t + 0.02)) (trustScores R))"
      by simp
  qed
qed

text \<open>A run from the initial state over one symbol, and a step of the two example agents.\<close>

theorem trust_never_decreases_witness:
  "random_ok example_random \<and> [''a''] \<noteq> [] \<and>
   sim_ok (1 / 2) (example_sim 0 [1, 0, 0] [1, 0, 0]) \<and> (1 / 2 :: real) \<le> 1 \<and>
   (\<exists>s' p' q'. run example_random (\<lambda>_. 0) 5 (fst (initial example_random [''a''] 0), 0, 0) =
        Inr (s', p', q') \<and>
      (\<forall>a \<in> set (agents s'). \<forall>(j, t) \<in> set (trustScores a). 0.5 \<le> t \<and> t \<le> 1)) \<and>
   (\<exists>s' p' q'. tick example_random (\<lambda>_. 0) (example_sim 0 [1, 0, 0] [1, 0, 0], 0, 0) =
        Inr (s', p', q') \<and>
      length (agents s') = length (agents (example_sim 0 [1, 0, 0] [1, 0, 0])) \<and>
      (\<forall>i < length (agents (example_sim 0 [1, 0, 0] [1, 0, 0])).
         trust_grows (agents (example_sim 0 [1, 0, 0] [1, 0, 0]) ! i) (agents s' ! i)))"
proof -
  let ?s = "example_sim 0 [1, 0, 0] [1, 0, 0]"
  have h1: "random_ok example_random" by (simp add: random_ok_def example_random_def)
  have h2: "[''a''] \<noteq> []" by simp
  have h3: "sim_ok (1 / 2) ?s"
    by (simp add: example_sim_def example_agent_def sim_ok_def agents_ok_def agent_ok_def
        mapping_ok_def All_less_Suc)
  have h4: "(1 / 2 :: real) \<le> 1" by simp
  note t = trust_never_decreases [OF h1 h2, of 0 "\<lambda>_. 0" 5 0 0 "1 / 2" ?s 0 0]
  note a = conjunct1 [OF conjunct2 [OF t]]
  note b = mp [OF conjunct1 [OF conjunct2 [OF conjunct2 [OF t]]] conjI [OF h3 h4]]
  show ?thesis by (intro conjI h1 h2 h3 h4 a b)
qed

section \<open>Runs and the clock\<close>

lemma communicate_clock:
  "map_sum id unstamped_exchange (communicate rnd clk1 st syms as sender receiver p q1) =
   map_sum id unstamped_exchange (communicate rnd clk2 st syms as sender receiver p q2)"
  by (simp add: communicate_def Let_def unstamped_exchange_def unstamped_communication_def
      split: prod.splits option.splits sum.splits)

lemma agentsUpdater_clock:
  "map_sum id unstamped_exchange (agentsUpdater rnd clk1 st syms as p q1) =
   map_sum id unstamped_exchange (agentsUpdater rnd clk2 st syms as p q2)"
proof -
  obtain newAgents p1 where fa: "forgetAgents rnd st as p = (newAgents, p1)"
    by (cases "forgetAgents rnd st as p")
  show ?thesis
    using communicate_clock [of rnd clk1 st syms newAgents _ _ "p1 + 2" q1 clk2 q2]
    by (simp add: agentsUpdater_def fa Let_def unstamped_exchange_def)
qed


lemma unstamped_fields:
  assumes "unstamped s1 = unstamped s2"
  shows "step s1 = step s2" "agents s1 = agents s2" "symbols s1 = symbols s2"
    "driftHistory s1 = driftHistory s2" "alignmentHistory s1 = alignmentHistory s2"
    "syntaxPatterns s1 = syntaxPatterns s2"
    "map unstamped_communication (communications s1) =
       map unstamped_communication (communications s2)"
    "map unstamped_shift (contextShifts s1) = map unstamped_shift (contextShifts s2)"
proof -
  from assms have "step (unstamped s1) = step (unstamped s2)"
    "agents (unstamped s1) = agents (unstamped s2)"
    "symbols (unstamped s1) = symbols (unstamped s2)"
    "driftHistory (unstamped s1) = driftHistory (unstamped s2)"
    "alignmentHistory (unstamped s1) = alignmentHistory (unstamped s2)"
    "syntaxPatterns (unstamped s1) = syntaxPatterns (unstamped s2)"
    "communications (unstamped s1) = communications (unstamped s2)"
    "contextShifts (unstamped s1) = contextShifts (unstamped s2)"
    by simp_all
  then show "step s1 = step s2" "agents s1 = agents s2" "symbols s1 = symbols s2"
    "driftHistory s1 = driftHistory s2" "alignmentHistory s1 = alignmentHistory s2"
    "syntaxPatterns s1 = syntaxPatterns s2"
    "map unstamped_communication (communications s1) =
       map unstamped_communication (communications s2)"
    "map unstamped_shift (contextShifts s1) = map unstamped_shift (contextShifts s2)"
    by (simp_all add: unstamped_def)
qed

lemma unstamped_eqI:
  assumes "step s1 = step s2" "agents s1 = agents s2" "symbols s1 = symbols s2"
    "driftHistory s1 = driftHistory s2" "alignmentHistory s1 = alignmentHistory s2"
    "syntaxPatterns s1 = syntaxPatterns s2"
    "map unstamped_communication (communications s1) =
       map unstamped_communication (communications s2)"
    "map unstamped_shift (contextShifts s1) = map unstamped_shift (contextShifts s2)"
  shows "unstamped s1 = unstamped s2"
  using assms by (intro sim.equality) (simp_all add: unstamped_def)

lemma map_appendBounded:
  "map f (appendBounded n xs x) = appendBounded n (map f xs) (f x)"
  by (simp add: appendBounded_def drop_map)

lemma appendBounded_cong:
  assumes "map f xs = map f ys" "f x = f y"
  shows "map f (appendBounded n xs x) = map f (appendBounded n ys y)"
  using assms by (simp add: map_appendBounded)

lemma simulateStep_unfold:
  assumes "agents s \<noteq> []"
    and "(if shiftDue (step s) then chooseShift rnd (symbols s) p else (None, None, p)) = (k, t, p1)"
  shows "simulateStep rnd clk s p q =
     (case agentsUpdater rnd clk (step s) (symbols s) (agents s) p1 q of
        Inl e \<Rightarrow> Inl e
      | Inr x \<Rightarrow>
         (case (if shiftDue (step s) \<and> k = Some symbol_redefinition
                then (case t of None \<Rightarrow> Inl IllTyped
                      | Some t \<Rightarrow> redefineAgents rnd t (x_agents x) (x_rpos x))
                else Inr (x_agents x, x_rpos x)) of
            Inl e \<Rightarrow> Inl e
          | Inr (as, p2) \<Rightarrow>
              Inr (finishStep clk s k x as, p2,
                   if shiftDue (step s) then x_cpos x + 1 else x_cpos x)))"
  using assms(1)
  by (simp add: simulateStep_def Let_def assms(2) finishStep_def split: sum.split prod.split)

lemma finishStep_clock:
  assumes u: "unstamped s1 = unstamped s2"
    and ux: "unstamped_exchange x1 = unstamped_exchange x2"
  shows "unstamped (finishStep clk1 s1 k x1 as) = unstamped (finishStep clk2 s2 k x2 as)"
proof -
  note f = unstamped_fields [OF u]
  from ux have xa: "x_pattern x2 = x_pattern x1"
    and xc: "map_option unstamped_communication (x_communication x1) =
             map_option unstamped_communication (x_communication x2)"
    by (simp_all add: unstamped_exchange_def)
  have comm: "map unstamped_communication
                (case x_communication x1 of None \<Rightarrow> communications s1
                 | Some c \<Rightarrow> appendBounded 29 (communications s1) c) =
              map unstamped_communication
                (case x_communication x2 of None \<Rightarrow> communications s2
                 | Some c \<Rightarrow> appendBounded 29 (communications s2) c)"
    using xc f(7)
    by (cases "x_communication x1"; cases "x_communication x2")
       (auto intro: appendBounded_cong)
  show ?thesis
    by (rule unstamped_eqI)
       (simp_all add: finishStep_def f(1-6) f(8) xa comm unstamped_shift_def
          cong: option.case_cong)
qed

lemma simulateStep_clock:
  assumes u: "unstamped s1 = unstamped s2"
  shows "unstamped_result (simulateStep rnd clk1 s1 p q1) =
         unstamped_result (simulateStep rnd clk2 s2 p q2)"
proof (cases "agents s1 = []")
  case True
  with unstamped_fields(2) [OF u] have "agents s2 = []" by simp
  with True u show ?thesis by (simp add: simulateStep_def unstamped_result_def)
next
  case False
  note f = unstamped_fields [OF u]
  from False f(2) have ne2: "agents s2 \<noteq> []" by simp
  obtain k t p1 where
    ch: "(if shiftDue (step s1) then chooseShift rnd (symbols s1) p else (None, None, p)) = (k, t, p1)"
    by (cases "if shiftDue (step s1) then chooseShift rnd (symbols s1) p else (None, None, p)") auto
  then have ch2:
    "(if shiftDue (step s2) then chooseShift rnd (symbols s2) p else (None, None, p)) = (k, t, p1)"
    unfolding f(1) f(3) .
  define X1 where "X1 = agentsUpdater rnd clk1 (step s1) (symbols s1) (agents s1) p1 q1"
  define X2 where "X2 = agentsUpdater rnd clk2 (step s2) (symbols s2) (agents s2) p1 q2"
  have rel: "map_sum id unstamped_exchange X1 = map_sum id unstamped_exchange X2"
    unfolding X1_def X2_def f(1-3) [symmetric] by (rule agentsUpdater_clock)
  note e1 = simulateStep_unfold [OF False ch, of clk1 q1, folded X1_def]
  note e2 = simulateStep_unfold [OF ne2 ch2, of clk2 q2, folded X2_def]
  show ?thesis
  proof (cases X1)
    case (Inl e)
    with rel have "X2 = Inl e" by (cases X2) simp_all
    with Inl show ?thesis by (simp add: e1 e2 unstamped_result_def)
  next
    case (Inr x1)
    with rel obtain x2 where x2: "X2 = Inr x2"
      and ux: "unstamped_exchange x1 = unstamped_exchange x2"
      by (cases X2) simp_all
    from ux have xa: "x_agents x2 = x_agents x1" "x_rpos x2 = x_rpos x1"
      by (simp_all add: unstamped_exchange_def)
    define r where "r = (if shiftDue (step s1) \<and> k = Some symbol_redefinition
                then (case t of None \<Rightarrow> Inl IllTyped
                      | Some t \<Rightarrow> redefineAgents rnd t (x_agents x1) (x_rpos x1))
                else Inr (x_agents x1, x_rpos x1))"
    have r1: "simulateStep rnd clk1 s1 p q1 =
        (case r of Inl e \<Rightarrow> Inl e
         | Inr (as, p2) \<Rightarrow> Inr (finishStep clk1 s1 k x1 as, p2,
                   if shiftDue (step s1) then x_cpos x1 + 1 else x_cpos x1))"
      by (simp add: e1 Inr r_def)
    have r2: "simulateStep rnd clk2 s2 p q2 =
        (case r of Inl e \<Rightarrow> Inl e
         | Inr (as, p2) \<Rightarrow> Inr (finishStep clk2 s2 k x2 as, p2,
                   if shiftDue (step s2) then x_cpos x2 + 1 else x_cpos x2))"
      by (simp add: e2 x2 r_def xa f(1) [symmetric] cong: option.case_cong)
    show ?thesis
    proof (cases r)
      case (Inl e)
      then show ?thesis by (simp add: r1 r2 unstamped_result_def)
    next
      case (Inr asp)
      obtain as p2 where asp: "asp = (as, p2)" by (cases asp)
      from finishStep_clock [OF u ux, of clk1 k as clk2] Inr asp
      show ?thesis by (simp add: r1 r2 unstamped_result_def)
    qed
  qed
qed

lemma unstamped_step: "unstamped (s\<lparr>step := n\<rparr>) = (unstamped s)\<lparr>step := n\<rparr>"
  by (simp add: unstamped_def)

lemma tick_clock:
  assumes u: "unstamped s1 = unstamped s2"
  shows "unstamped_result (tick rnd clk1 (s1, p, q1)) =
         unstamped_result (tick rnd clk2 (s2, p, q2))"
proof -
  note sc = simulateStep_clock [OF u, of rnd clk1 p q1 clk2 q2]
  note f = unstamped_fields(1) [OF u]
  show ?thesis
  proof (cases "simulateStep rnd clk1 s1 p q1")
    case (Inl e)
    with sc have "simulateStep rnd clk2 s2 p q2 = Inl e"
      by (cases "simulateStep rnd clk2 s2 p q2") (auto simp: unstamped_result_def)
    with Inl show ?thesis by (simp add: tick_def unstamped_result_def)
  next
    case (Inr w1)
    obtain a1 b1 c1 where w1: "w1 = (a1, b1, c1)" by (cases w1)
    from sc Inr w1 obtain a2 c2 where
      2: "simulateStep rnd clk2 s2 p q2 = Inr (a2, b1, c2)" and ua: "unstamped a1 = unstamped a2"
      by (cases "simulateStep rnd clk2 s2 p q2") (auto simp: unstamped_result_def)
    show ?thesis
      using Inr w1 2 ua f by (simp add: tick_def unstamped_result_def unstamped_step)
  qed
qed

lemma run_clock:
  "unstamped s1 = unstamped s2 \<Longrightarrow>
   unstamped_result (run rnd clk1 n (s1, p, q1)) = unstamped_result (run rnd clk2 n (s2, p, q2))"
proof (induction n arbitrary: s1 s2 p q1 q2)
  case 0
  then show ?case by (simp add: unstamped_result_def)
next
  case (Suc n)
  note tc = tick_clock [OF Suc.prems, of rnd clk1 p q1 clk2 q2]
  show ?case
  proof (cases "tick rnd clk1 (s1, p, q1)")
    case (Inl e)
    with tc have "tick rnd clk2 (s2, p, q2) = Inl e"
      by (cases "tick rnd clk2 (s2, p, q2)") (auto simp: unstamped_result_def)
    with Inl show ?thesis by (simp add: unstamped_result_def)
  next
    case (Inr w1)
    obtain a1 b1 c1 where w1: "w1 = (a1, b1, c1)" by (cases w1)
    from tc Inr w1 obtain a2 c2 where
      2: "tick rnd clk2 (s2, p, q2) = Inr (a2, b1, c2)" and ua: "unstamped a1 = unstamped a2"
      by (cases "tick rnd clk2 (s2, p, q2)") (auto simp: unstamped_result_def)
    from Suc.IH [OF ua, of b1 c1 c2] show ?thesis using Inr w1 2 by simp
  qed
qed

text \<open>
  Claim C1, as the code has it.  The random source of the code is \<open>Math.random()\<close>,
  whose results are the parameter \<open>rnd\<close> of the model, and a step also reads
  \<open>Date.now()\<close>, for the \<open>id\<close> of each communication and of each context shift.  Two
  runs of the same number of steps from the same state with the same results of
  \<open>Math.random()\<close> end alike in everything but these ids, whatever the clock returns:
  either both stop with the same fault, or both return, with the same agents, the same
  drift and alignment histories, the same syntax patterns, the same communications and
  context shifts up to their ids, and at the same position of the random source.
\<close>

theorem runs_agree_up_to_timestamps:
  "unstamped_result (run rnd clk1 n (s, p, q1)) = unstamped_result (run rnd clk2 n (s, p, q2))"
  by (rule run_clock) simp


text \<open>The ids themselves follow the clock.\<close>

lemma run_Suc_right:
  "run rnd clk (Suc n) w =
     (case run rnd clk n w of Inl e \<Rightarrow> Inl e | Inr w' \<Rightarrow> tick rnd clk w')"
proof (induction n arbitrary: w)
  case 0
  then show ?case by (simp split: sum.splits)
next
  case (Suc n)
  show ?case
  proof (cases "tick rnd clk w")
    case (Inl e)
    then show ?thesis by simp
  next
    case (Inr w')
    with Suc [of w'] show ?thesis by simp
  qed
qed

lemma length_agents_initial: "length (agents (fst (initial rnd syms p))) = 4"
proof -
  obtain as p' where ia: "initAgents rnd syms p = (as, p')" by (cases "initAgents rnd syms p")
  from initAgentsFrom_nth [of rnd syms "[0..<4]" p] ia have "length as = 4"
    by (simp add: initAgents_def)
  with ia show ?thesis by (simp add: initial_def)
qed

lemma shift_stamp:
  assumes ok: "sim_ok lo s" and rnd: "random_ok rnd" and lo: "lo \<le> 1"
    and ne: "agents s \<noteq> []" and due: "shiftDue (step s)"
  shows "\<exists>s' p' q'. tick rnd (\<lambda>_. v) (s, p, q) = Inr (s', p', q') \<and>
           contextShifts s' \<noteq> [] \<and> s_id (last (contextShifts s')) = v"
proof -
  from simulateStep_ok [OF ok rnd lo, of "\<lambda>_. v" p q] obtain s' p' q' where
    st: "simulateStep rnd (\<lambda>_. v) s p q = Inr (s', p', q')" by blast
  from st ne have "contextShifts s' \<noteq> [] \<and> s_id (last (contextShifts s')) = v"
  proof (cases rule: simulateStep_InrE)
    case (1 k t p1 x as p2)
    then show ?thesis using due by simp
  qed
  with st show ?thesis by (simp add: tick_def)
qed

lemma run_101_stamp:
  assumes rnd: "random_ok rnd" and syms: "syms \<noteq> []"
  shows "\<exists>s' p' q'. run rnd (\<lambda>_. v) 101 (fst (initial rnd syms p0), p, q) = Inr (s', p', q') \<and>
           contextShifts s' \<noteq> [] \<and> s_id (last (contextShifts s')) = v"
proof -
  let ?s0 = "fst (initial rnd syms p0)"
  have ok0: "sim_ok 0.5 ?s0" by (rule initial_ok [OF rnd syms]) simp
  have s0: "step ?s0 = 0" by (simp add: initial_def case_prod_unfold Let_def)
  from run_ok [OF rnd _ ok0, of "\<lambda>_. v" 100 p q] obtain s1 p1 q1 where
    r: "run rnd (\<lambda>_. v) 100 (?s0, p, q) = Inr (s1, p1, q1)" and ok: "sim_ok 0.5 s1"
    and st: "step s1 = step ?s0 + 100" and len: "length (agents s1) = length (agents ?s0)"
    by auto
  have ne: "agents s1 \<noteq> []" using len length_agents_initial [of rnd syms p0] by auto
  have due: "shiftDue (step s1)" by (simp add: st s0 shiftDue_def)
  from shift_stamp [OF ok rnd _ ne due, of v p1 q1] obtain s' p' q' where
    t: "tick rnd (\<lambda>_. v) (s1, p1, q1) = Inr (s', p', q')"
    and c: "contextShifts s' \<noteq> []" "s_id (last (contextShifts s')) = v" by auto
  have "run rnd (\<lambda>_. v) (Suc 100) (?s0, p, q) = Inr (s', p', q')"
    unfolding run_Suc_right by (simp add: r t)
  then show ?thesis using c by (simp del: run.simps)
qed

text \<open>
  Claim C1 as stated has two runs with the same seed produce identical context-shift
  records.  Two runs of 101 steps from the initial state over one symbol, with the
  same random source and two different clocks, log different context shifts.
\<close>

theorem context_shift_stamps_differ:
  "map_sum id (contextShifts \<circ> fst)
     (run (\<lambda>_. 0) (\<lambda>_. 0) 101 (fst (initial (\<lambda>_. 0) [''a''] 0), snd (initial (\<lambda>_. 0) [''a''] 0), 0)) \<noteq>
   map_sum id (contextShifts \<circ> fst)
     (run (\<lambda>_. 0) (\<lambda>_. 1) 101 (fst (initial (\<lambda>_. 0) [''a''] 0), snd (initial (\<lambda>_. 0) [''a''] 0), 0))"
proof -
  have rnd: "random_ok (\<lambda>_. 0)" by (simp add: random_ok_def)
  have syms: "[''a''] \<noteq> []" by simp
  let ?w = "(fst (initial (\<lambda>_. 0) [''a''] 0), snd (initial (\<lambda>_. 0) [''a''] 0), 0 :: nat)"
  from run_101_stamp [OF rnd syms, of 0 0 "snd (initial (\<lambda>_. 0) [''a''] 0)" 0]
  obtain a pa qa where
    a: "run (\<lambda>_. 0) (\<lambda>_. 0) 101 ?w = Inr (a, pa, qa)"
    and ca: "s_id (last (contextShifts a)) = 0" by blast
  from run_101_stamp [OF rnd syms, of 1 0 "snd (initial (\<lambda>_. 0) [''a''] 0)" 0]
  obtain b pb qb where
    b: "run (\<lambda>_. 0) (\<lambda>_. 1) 101 ?w = Inr (b, pb, qb)"
    and cb: "s_id (last (contextShifts b)) = 1" by blast
  from ca cb have "contextShifts a \<noteq> contextShifts b" by auto
  then show ?thesis by (simp add: a b)
qed

end
